theory Spec2Isabelle
  imports Complex_Main
begin

section \<open>Loading instructions (Loading_Enum, ORDER, MAP, reducer)\<close>

text \<open>
  The enum values are JavaScript strings. \<open>reducer\<close> accepts any string
  (\<open>@param {Loading_Enum|string}\<close>), so the model keeps strings as they are.
\<close>

definition AUTO :: string where "AUTO = ''auto''"
definition LAZY :: string where "LAZY = ''lazy''"
definition EAGER :: string where "EAGER = ''eager''"
definition UNLOAD :: string where "UNLOAD = ''unload''"

definition ORDER :: "string list" where
  "ORDER = [AUTO, LAZY, EAGER, UNLOAD]"

text \<open>
  What a property read \<open>MAP[v]\<close> can yield: \<open>undefined\<close>, one of the numbers stored
  under the four own keys, or an object (a function or \<open>Object.prototype\<close> itself)
  found further up the prototype chain.
\<close>

datatype jsvalue = Undefined | Number nat | Object

text \<open>
  \<open>MAP\<close> is written as an object literal, so its prototype is \<open>Object.prototype\<close>
  and a read of a key that is not an own property continues there. These are the
  property names of \<open>Object.prototype\<close> in ECMAScript; each holds a function, and
  \<open>__proto__\<close> is an accessor that returns \<open>Object.prototype\<close>.
\<close>

definition Object_prototype_keys :: "string list" where
  "Object_prototype_keys =
     [''constructor'', ''hasOwnProperty'', ''isPrototypeOf'', ''propertyIsEnumerable'',
      ''toLocaleString'', ''toString'', ''valueOf'', ''__proto__'',
      ''__defineGetter__'', ''__defineSetter__'', ''__lookupGetter__'', ''__lookupSetter__'']"

definition MAP :: "string \<Rightarrow> jsvalue" where
  "MAP v =
     (if v = AUTO then Number 0
      else if v = LAZY then Number 1
      else if v = EAGER then Number 2
      else if v = UNLOAD then Number 3
      else if v \<in> set Object_prototype_keys then Object
      else Undefined)"

text \<open>\<open>value || 0\<close>: \<open>undefined\<close> and \<open>0\<close> are falsy, every other value here is truthy.\<close>

fun or_zero :: "jsvalue \<Rightarrow> jsvalue" where
  "or_zero Undefined = Number 0"
| "or_zero (Number n) = (if n = 0 then Number 0 else Number n)"
| "or_zero Object = Object"

text \<open>
  \<open>Math.max\<close> converts its arguments with ToNumber; an object that is a function or
  \<open>Object.prototype\<close> converts to \<open>NaN\<close>, and \<open>NaN\<close> absorbs.
\<close>

datatype number = Finite nat | NaN

fun ToNumber :: "jsvalue \<Rightarrow> number" where
  "ToNumber (Number n) = Finite n"
| "ToNumber Undefined = NaN"
| "ToNumber Object = NaN"

fun Math_max :: "jsvalue \<Rightarrow> jsvalue \<Rightarrow> number" where
  "Math_max a b =
     (case (ToNumber a, ToNumber b) of
        (Finite m, Finite n) \<Rightarrow> Finite (max m n)
      | _ \<Rightarrow> NaN)"

text \<open>\<open>ORDER[ordinal]\<close>: an index that is not in range, \<open>NaN\<close> included, reads \<open>undefined\<close>.\<close>

fun ORDER_at :: "number \<Rightarrow> string option" where
  "ORDER_at NaN = None"
| "ORDER_at (Finite n) = (if n < length ORDER then Some (ORDER ! n) else None)"

definition reducer :: "string \<Rightarrow> string \<Rightarrow> string option" where
  "reducer v1 v2 =
     (let ordinal1 = or_zero (MAP v1);
          ordinal2 = or_zero (MAP v2);
          ordinal = Math_max ordinal1 ordinal2
      in ORDER_at ordinal)"

text \<open>The ordinal the documentation gives a loading instruction: unknown strings count as auto.\<close>

definition priority :: "string \<Rightarrow> nat" where
  "priority v = (if v = LAZY then 1 else if v = EAGER then 2 else if v = UNLOAD then 3 else 0)"

section \<open>Layout rectangles (LayoutRectDef, layoutRectLtwh, moveLayoutRect)\<close>

text \<open>
  The fields are JavaScript numbers. The functions below only add numbers and compare
  them with zero, so the number type is left open: any type with a zero and an addition.
  The fields \<open>top\<close>, \<open>x\<close> and \<open>y\<close> are written \<open>rect_top\<close>, \<open>rect_x\<close> and \<open>rect_y\<close>.
  Objects are modelled by their value: "the same object" is the same record.
\<close>

record 'a LayoutRectDef =
  left :: 'a
  rect_top :: 'a
  width :: 'a
  height :: 'a
  bottom :: 'a
  right :: 'a
  rect_x :: 'a
  rect_y :: 'a

definition layoutRectLtwh :: "'a::plus \<Rightarrow> 'a \<Rightarrow> 'a \<Rightarrow> 'a \<Rightarrow> 'a LayoutRectDef" where
  "layoutRectLtwh l t w h =
     \<lparr>left = l, rect_top = t, width = w, height = h,
      bottom = t + h, right = l + w, rect_x = l, rect_y = t\<rparr>"

definition moveLayoutRect ::
  "('a::{zero,plus}) LayoutRectDef \<Rightarrow> 'a \<Rightarrow> 'a \<Rightarrow> 'a LayoutRectDef" where
  "moveLayoutRect rect dx dy =
     (if (dx = 0 \<and> dy = 0) \<or> (width rect = 0 \<and> height rect = 0) then rect
      else layoutRectLtwh (left rect + dx) (rect_top rect + dy) (width rect) (height rect))"

section \<open>Viewport observer (createViewportObserver, observeIntersections, ioCallback)\<close>

subsection \<open>Windows, elements, records of an intersection batch\<close>

text \<open>
  Modelled from the spec: \<open>isIframed\<close> (from \<open>#core/dom\<close>) and \<open>getWin\<close> (from
  \<open>#core/window\<close>) are not part of the sources at hand. The spec describes them as the
  capability to tell whether a window is embedded in another browsing context and the
  capability to resolve the owning window of an element; here they are fields of the
  window and of the element. \<open>wid\<close> and \<open>eid\<close> stand for object identity.
\<close>

type_synonym doc = nat

record window =
  wid :: nat
  isIframed :: bool
  document :: doc

record element =
  eid :: nat
  getWin :: window

text \<open>An \<open>IntersectionObserverEntry\<close>: the target and some of the visibility data.\<close>

record entry =
  target :: element
  isIntersecting :: bool
  time :: nat

text \<open>A callback is a function object; the model keeps its identity.\<close>

type_synonym callback = nat

subsection \<open>createViewportObserver\<close>

datatype threshold = Threshold_number real | Threshold_array "real list"

text \<open>The options object; an absent property is \<open>None\<close>, and \<open>opts = {}\<close> has both absent.\<close>

record options =
  threshold :: "threshold option"
  needsRootBounds :: "bool option"

definition no_options :: options where
  "no_options = \<lparr>threshold = None, needsRootBounds = None\<rparr>"

text \<open>The function handed to the constructor: this module's \<open>ioCallback\<close> or another one.\<close>

datatype dispatch = IoCallback | Dispatch nat

text \<open>
  The primitive, as \<open>new win.IntersectionObserver(ioCallback, {threshold, root})\<close>
  builds it: the window whose constructor is used and the arguments it receives.
\<close>

record IntersectionObserver =
  io_callback :: dispatch
  io_win :: window
  io_threshold :: "threshold option"
  io_root :: "doc option"

definition createViewportObserver :: "dispatch \<Rightarrow> window \<Rightarrow> options \<Rightarrow> IntersectionObserver" where
  "createViewportObserver ioCallback win opts =
     (let root = (if isIframed win \<and> needsRootBounds opts = Some True
                  then Some (document win) else None)
      in \<lparr>io_callback = ioCallback, io_win = win,
          io_threshold = threshold opts, io_root = root\<rparr>)"

subsection \<open>The two registries\<close>

text \<open>
  Calls that reach the platform, in the order they are made: the constructor, and
  \<open>observe\<close> and \<open>unobserve\<close> with the primitive they are called on.
\<close>

datatype platform_call =
    Construct IntersectionObserver
  | Observe_call IntersectionObserver element
  | Unobserve_call IntersectionObserver element

text \<open>
  \<open>viewportObservers\<close> and \<open>viewportCallbacks\<close> are the two module-level WeakMaps.
  The values of \<open>viewportCallbacks\<close> are arrays that are updated in place while
  \<open>ioCallback\<close> holds a reference to one of them, so the arrays live in a store:
  the registry maps an element to the address of its array, \<open>arrays\<close> gives the
  contents at an address and \<open>fresh\<close> is the next unused address. \<open>calls\<close> records
  the platform calls and \<open>invoked\<close> the callback invocations \<open>callback(entry)\<close>.
\<close>

record state =
  viewportObservers :: "window \<rightharpoonup> IntersectionObserver"
  viewportCallbacks :: "element \<rightharpoonup> nat"
  arrays :: "nat \<Rightarrow> callback list"
  fresh :: nat
  calls :: "platform_call list"
  invoked :: "(callback \<times> entry) list"

definition initial :: state where
  "initial = \<lparr>viewportObservers = Map.empty, viewportCallbacks = Map.empty,
              arrays = (\<lambda>a. []), fresh = 0, calls = [], invoked = []\<rparr>"

text \<open>
  Modelled from the spec: \<open>removeItem\<close> (from \<open>#core/types/array\<close>) is not part of
  the sources at hand. The spec: "a capability to remove a single occurrence of a value
  from an ordered sequence, reporting whether removal occurred", and "remove the first
  occurrence". It returns the report and the array as it is afterwards.
\<close>

definition removeItem :: "'a list \<Rightarrow> 'a \<Rightarrow> bool \<times> 'a list" where
  "removeItem array item =
     (if item \<in> set array then (True, remove1 item array) else (False, array))"

subsection \<open>observeIntersections and unobserveIntersections\<close>

text \<open>
  The disposer is the closure \<open>() => unobserveIntersections(element, callback)\<close>:
  the pair it captures.
\<close>

type_synonym disposer = "element \<times> callback"

definition observeIntersections :: "state \<Rightarrow> element \<Rightarrow> callback \<Rightarrow> disposer \<times> state" where
  "observeIntersections s element callback =
     (let win = getWin element;
          (viewportObserver, s1) =
            (case viewportObservers s win of
               Some found \<Rightarrow> (found, s)
             | None \<Rightarrow>
                 (let created = createViewportObserver IoCallback win no_options
                  in (created, s\<lparr>viewportObservers := (viewportObservers s)(win \<mapsto> created),
                                  calls := calls s @ [Construct created]\<rparr>)));
          (callbacks, s2) =
            (case viewportCallbacks s1 element of
               Some found \<Rightarrow> (found, s1)
             | None \<Rightarrow>
                 (fresh s1, s1\<lparr>viewportCallbacks := (viewportCallbacks s1)(element \<mapsto> fresh s1),
                               arrays := (arrays s1)(fresh s1 := []),
                               fresh := Suc (fresh s1)\<rparr>));
          s3 = s2\<lparr>arrays := (arrays s2)(callbacks := arrays s2 callbacks @ [callback])\<rparr>;
          s4 = s3\<lparr>calls := calls s3 @ [Observe_call viewportObserver element]\<rparr>
      in ((element, callback), s4))"

definition unobserveIntersections :: "state \<Rightarrow> element \<Rightarrow> callback \<Rightarrow> state" where
  "unobserveIntersections s element callback =
     (case viewportCallbacks s element of
        None \<Rightarrow> s
      | Some callbacks \<Rightarrow>
          (let (removed, remaining) = removeItem (arrays s callbacks) callback
           in if \<not> removed then s
              else
                (let s1 = s\<lparr>arrays := (arrays s)(callbacks := remaining)\<rparr>
                 in if length remaining \<noteq> 0 then s1
                    else
                      (let win = getWin element;
                           s2 = (case viewportObservers s1 win of
                                   None \<Rightarrow> s1
                                 | Some viewportObserver \<Rightarrow>
                                     s1\<lparr>calls := calls s1 @ [Unobserve_call viewportObserver element]\<rparr>)
                       in s2\<lparr>viewportCallbacks := (viewportCallbacks s2)(element := None)\<rparr>))))"

definition dispose :: "disposer \<Rightarrow> state \<Rightarrow> state" where
  "dispose d s = unobserveIntersections s (fst d) (snd d)"

subsection \<open>ioCallback\<close>

text \<open>
  \<open>callback(entry)\<close> runs code of the caller. The registries are private to the module,
  so what a callback can do to them while \<open>ioCallback\<close> runs is to call
  \<open>observeIntersections\<close> or a disposer; a \<open>behaviour\<close> gives, for a callback and the
  record it receives, the calls it makes, in order. Callbacks are taken to return.
\<close>

datatype action = Observe element callback | Dispose element callback

type_synonym behaviour = "callback \<Rightarrow> entry \<Rightarrow> action list"

fun perform :: "state \<Rightarrow> action \<Rightarrow> state" where
  "perform s (Observe element callback) = snd (observeIntersections s element callback)"
| "perform s (Dispose element callback) = unobserveIntersections s element callback"

text \<open>
  The inner loop \<open>for (k = 0; k < callbacks.length; k++)\<close> over the array at address
  \<open>callbacks\<close>. The length is read again at every turn, and a callback that registers
  another one for the same element makes the array longer, so the loop need not end:
  \<open>fuel\<close> bounds the number of turns, and \<open>None\<close> says the loop was still running
  when it was used up.
\<close>

fun callbacksLoop :: "behaviour \<Rightarrow> nat \<Rightarrow> entry \<Rightarrow> nat \<Rightarrow> nat \<Rightarrow> state \<Rightarrow> state option" where
  "callbacksLoop run 0 entry callbacks k s =
     (if k < length (arrays s callbacks) then None else Some s)"
| "callbacksLoop run (Suc fuel) entry callbacks k s =
     (if k < length (arrays s callbacks) then
        (let callback = arrays s callbacks ! k;
             s1 = s\<lparr>invoked := invoked s @ [(callback, entry)]\<rparr>;
             s2 = foldl perform s1 (run callback entry)
         in callbacksLoop run fuel entry callbacks (Suc k) s2)
      else Some s)"

text \<open>
  The outer loop \<open>for (i = entries.length - 1; i >= 0; i--)\<close>, given the records
  from the last to the first.
\<close>

fun entriesLoop :: "behaviour \<Rightarrow> nat \<Rightarrow> element set \<Rightarrow> entry list \<Rightarrow> state \<Rightarrow> state option" where
  "entriesLoop run fuel seen [] s = Some s"
| "entriesLoop run fuel seen (entry # earlier) s =
     (if target entry \<in> seen then entriesLoop run fuel seen earlier s
      else
        (case viewportCallbacks s (target entry) of
           None \<Rightarrow> entriesLoop run fuel (insert (target entry) seen) earlier s
         | Some callbacks \<Rightarrow>
             (case callbacksLoop run fuel entry callbacks 0 s of
                None \<Rightarrow> None
              | Some s' \<Rightarrow> entriesLoop run fuel (insert (target entry) seen) earlier s')))"

definition ioCallback :: "behaviour \<Rightarrow> nat \<Rightarrow> entry list \<Rightarrow> state \<Rightarrow> state option" where
  "ioCallback run fuel entries s = entriesLoop run fuel {} (rev entries) s"

subsection \<open>Reachable states\<close>

text \<open>
  The states the module can be in: any sequence of registrations, disposer calls and
  dispatches that return, from the state in which the module is loaded.
\<close>

inductive reachable :: "behaviour \<Rightarrow> state \<Rightarrow> bool" for run :: behaviour where
  loaded: "reachable run initial"
| registered: "reachable run s \<Longrightarrow> reachable run (snd (observeIntersections s element callback))"
| disposed: "reachable run s \<Longrightarrow> reachable run (dispose d s)"
| dispatched: "reachable run s \<Longrightarrow> ioCallback run fuel entries s = Some s' \<Longrightarrow> reachable run s'"

subsection \<open>Notions the properties are stated with\<close>

text \<open>The callbacks registered for an element, in registration order.\<close>

definition callbacks_of :: "state \<Rightarrow> element \<Rightarrow> callback list" where
  "callbacks_of s element =
     (case viewportCallbacks s element of None \<Rightarrow> [] | Some a \<Rightarrow> arrays s a)"

text \<open>
  An element is under active observation by a primitive when \<open>observe\<close> has been called
  on the primitive for it and \<open>unobserve\<close> has not been called since.
\<close>

definition watching :: "platform_call list \<Rightarrow> IntersectionObserver \<Rightarrow> element \<Rightarrow> bool" where
  "watching cs io element =
     (let about = filter (\<lambda>c. c = Observe_call io element \<or> c = Unobserve_call io element) cs
      in about \<noteq> [] \<and> last about = Observe_call io element)"

text \<open>The most recent record of a batch for an element: the last one in batch order.\<close>

definition latest :: "entry list \<Rightarrow> element \<Rightarrow> entry option" where
  "latest entries element =
     (case filter (\<lambda>entry. target entry = element) entries of
        [] \<Rightarrow> None
      | r # rs \<Rightarrow> Some (last (r # rs)))"

text \<open>The invocations a dispatch added to the log.\<close>

definition delivered :: "state \<Rightarrow> state \<Rightarrow> (callback \<times> entry) list" where
  "delivered s s' = drop (length (invoked s)) (invoked s')"

text \<open>The element an action is about.\<close>

fun act_element :: "action \<Rightarrow> element" where
  "act_element (Observe element callback) = element"
| "act_element (Dispose element callback) = element"

text \<open>
  No callback registered for a target of the batch, when it is invoked with a record
  of the batch for that target, registers or disposes a callback for an element that
  the batch names. What it does for other elements is not restricted.
\<close>

definition quiet :: "behaviour \<Rightarrow> state \<Rightarrow> entry list \<Rightarrow> bool" where
  "quiet run s entries =
     (\<forall>entry \<in> set entries. \<forall>callback \<in> set (callbacks_of s (target entry)).
        \<forall>act \<in> set (run callback entry). act_element act \<notin> target ` set entries)"

text \<open>The fuel covers a walk over the callbacks of each target of the batch.\<close>

definition enough :: "nat \<Rightarrow> state \<Rightarrow> entry list \<Rightarrow> bool" where
  "enough fuel s entries =
     (\<forall>entry \<in> set entries. length (callbacks_of s (target entry)) \<le> fuel)"

text \<open>
  What a dispatch is meant to deliver, given the callbacks of each element: going
  through the records from the last to the first, the first record met for an element
  goes to each of the element's callbacks in turn, and later ones for it are passed over.
\<close>

fun deliveries ::
  "(element \<Rightarrow> callback list) \<Rightarrow> element set \<Rightarrow> entry list \<Rightarrow> (callback \<times> entry) list" where
  "deliveries cbs seen [] = []"
| "deliveries cbs seen (entry # earlier) =
     (if target entry \<in> seen then deliveries cbs seen earlier
      else map (\<lambda>c. (c, entry)) (cbs (target entry)) @
           deliveries cbs (insert (target entry) seen) earlier)"

text \<open>The invocations of a log that concern an element.\<close>

definition for_element :: "element \<Rightarrow> (callback \<times> entry) list \<Rightarrow> (callback \<times> entry) list" where
  "for_element e invocations = filter (\<lambda>p. target (snd p) = e) invocations"

text \<open>The invocations a dispatch makes, and the callbacks an element has after it.\<close>

definition delivered_by ::
  "behaviour \<Rightarrow> nat \<Rightarrow> entry list \<Rightarrow> state \<Rightarrow> (callback \<times> entry) list option" where
  "delivered_by run fuel entries s = map_option (delivered s) (ioCallback run fuel entries s)"

definition callbacks_after ::
  "behaviour \<Rightarrow> nat \<Rightarrow> entry list \<Rightarrow> state \<Rightarrow> element \<Rightarrow> callback list option" where
  "callbacks_after run fuel entries s e =
     map_option (\<lambda>s'. callbacks_of s' e) (ioCallback run fuel entries s)"

text \<open>
  Three behaviours. \<open>Selfdispose\<close>: callback 1 calls its disposer for the element of
  the record it receives, as in
  \<open>const unobserve = observeIntersections(el, (entry) => { unobserve(); ... })\<close>.
  \<open>Reregister\<close>: callback 1 calls its disposer and registers itself again.
  \<open>Elsewhere\<close>: callback 1 registers callback 9 for the element \<open>e\<close>.
\<close>

definition Selfdispose :: behaviour where
  "Selfdispose c entry = (if c = 1 then [Dispose (target entry) 1] else [])"

definition Reregister :: behaviour where
  "Reregister c entry =
     (if c = 1 then [Dispose (target entry) 1, Observe (target entry) 1] else [])"

definition Elsewhere :: "element \<Rightarrow> behaviour" where
  "Elsewhere e c entry = (if c = 1 then [Observe e 9] else [])"

subsection \<open>Invariants of the registries\<close>

text \<open>
  The primitive \<open>observeIntersections\<close> uses for an element: the one stored for the
  element's window, or the one it creates when there is none.
\<close>

definition primitive_for :: "state \<Rightarrow> element \<Rightarrow> IntersectionObserver" where
  "primitive_for s e =
     (case viewportObservers s (getWin e) of
        Some io \<Rightarrow> io
      | None \<Rightarrow> createViewportObserver IoCallback (getWin e) no_options)"

text \<open>
  Invariant A, with what its proof needs: every element with an entry in the callback
  registry is watched by the primitive stored for its window, and an element that some
  primitive watches has an entry and the primitive is the one stored for its window.
\<close>

definition invariant_A :: "state \<Rightarrow> bool" where
  "invariant_A s =
     ((\<forall>e. e \<in> dom (viewportCallbacks s) \<longrightarrow>
           (\<exists>io. viewportObservers s (getWin e) = Some io \<and> watching (calls s) io e)) \<and>
      (\<forall>io e. watching (calls s) io e \<longrightarrow>
           viewportObservers s (getWin e) = Some io \<and> e \<in> dom (viewportCallbacks s)))"

text \<open>A call of the constructor \<open>win.IntersectionObserver\<close> of the window \<open>w\<close>.\<close>

definition constructed_for :: "window \<Rightarrow> platform_call \<Rightarrow> bool" where
  "constructed_for w c = (case c of Construct io \<Rightarrow> io_win io = w | _ \<Rightarrow> False)"

text \<open>
  Invariant B: the constructor calls made for a window are none when the window has no
  entry in the observer registry, and the one that built the stored primitive when it has.
\<close>

definition invariant_B :: "state \<Rightarrow> bool" where
  "invariant_B s =
     (\<forall>w. filter (constructed_for w) (calls s) =
            (case viewportObservers s w of None \<Rightarrow> [] | Some io \<Rightarrow> [Construct io]) \<and>
          (\<forall>io. viewportObservers s w = Some io \<longrightarrow>
                io = createViewportObserver IoCallback w no_options))"

text \<open>
  The store of arrays is well formed: the addresses in the callback registry are below
  \<open>fresh\<close>, and no two elements share an array.
\<close>

definition well_formed :: "state \<Rightarrow> bool" where
  "well_formed s =
     ((\<forall>e a. viewportCallbacks s e = Some a \<longrightarrow> a < fresh s) \<and>
      (\<forall>e e' a. viewportCallbacks s e = Some a \<and> viewportCallbacks s e' = Some a \<longrightarrow> e = e'))"

text \<open>Two states give the elements of \<open>T\<close> the same arrays with the same callbacks.\<close>

definition agree :: "element set \<Rightarrow> state \<Rightarrow> state \<Rightarrow> bool" where
  "agree T s s' =
     (\<forall>e \<in> T. viewportCallbacks s' e = viewportCallbacks s e \<and> callbacks_of s' e = callbacks_of s e)"

subsection \<open>Concrete windows, elements, records and states\<close>

definition Win1 :: window where "Win1 = \<lparr>wid = 1, isIframed = False, document = 10\<rparr>"
definition Win2 :: window where "Win2 = \<lparr>wid = 2, isIframed = True, document = 20\<rparr>"
definition Elem1 :: element where "Elem1 = \<lparr>eid = 1, getWin = Win1\<rparr>"
definition Elem2 :: element where "Elem2 = \<lparr>eid = 2, getWin = Win2\<rparr>"
definition Rec0 :: entry where "Rec0 = \<lparr>target = Elem1, isIntersecting = False, time = 0\<rparr>"
definition Rec1 :: entry where "Rec1 = \<lparr>target = Elem1, isIntersecting = True, time = 1\<rparr>"
definition Rec2 :: entry where "Rec2 = \<lparr>target = Elem2, isIntersecting = True, time = 1\<rparr>"

text \<open>
  \<open>State1\<close>: callback 1 registered for \<open>Elem1\<close>. \<open>State2\<close>: callbacks 1 and 2, in
  that order. \<open>Twice\<close>: callback 1 registered two times. \<open>Mixed\<close>: callback 1, then
  callback 2 registered two times.
\<close>

definition State1 :: state where "State1 = snd (observeIntersections initial Elem1 1)"
definition State2 :: state where "State2 = snd (observeIntersections State1 Elem1 2)"
definition Twice :: state where "Twice = snd (observeIntersections State1 Elem1 1)"
definition Mixed :: state where "Mixed = snd (observeIntersections State2 Elem1 2)"

definition Primitive1 :: IntersectionObserver where
  "Primitive1 = createViewportObserver IoCallback Win1 no_options"

section \<open>Properties of the loading instructions\<close>

lemmas loading_defs = AUTO_def LAZY_def EAGER_def UNLOAD_def

lemma reducer_commute: "reducer v1 v2 = reducer v2 v1"
  by (cases "or_zero (MAP v1)"; cases "or_zero (MAP v2)"; simp add: reducer_def max.commute)

lemma reducer_own_keys:
  assumes "v1 \<notin> set Object_prototype_keys" and "v2 \<notin> set Object_prototype_keys"
  shows "reducer v1 v2 = Some (ORDER ! max (priority v1) (priority v2))"
  using assms
  by (auto simp add: reducer_def MAP_def priority_def ORDER_def loading_defs)

text \<open>
  C9. \<open>reducer\<close> is documented to return a \<open>Loading_Enum\<close> for any two strings, the one
  of higher priority, with a string that is not an enum value counting as auto. For
  \<open>v1 = 'constructor'\<close> the read \<open>MAP[v1]\<close> finds \<open>Object.prototype.constructor\<close>, a
  function; \<open>Math.max\<close> of a function and \<open>0\<close> is \<open>NaN\<close>, and \<open>ORDER[NaN]\<close> is
  \<open>undefined\<close>: \<open>reducer('constructor', 'auto')\<close> returns no enum value.
  (\<open>reducer_commute\<close> shows the commutativity, and \<open>reducer_own_keys\<close> the documented
  result for strings that are not property names of \<open>Object.prototype\<close>.)
\<close>

theorem reducer_inherited_key:
  "reducer ''constructor'' ''auto'' = None"
  by (simp add: reducer_def MAP_def Object_prototype_keys_def loading_defs)

section \<open>Properties of the layout rectangles\<close>

text \<open>
  C10. \<open>moveLayoutRect\<close> returns the rect it was given when \<open>dx\<close> and \<open>dy\<close> are both
  zero, and also when the width and the height of the rect are both zero, whatever \<open>dx\<close>
  and \<open>dy\<close> are; in every other case it returns the rect built by \<open>layoutRectLtwh\<close>
  with left and top moved by \<open>dx\<close> and \<open>dy\<close> and the width and height kept.
\<close>

theorem moveLayoutRect_cases:
  "((dx = 0 \<and> dy = 0) \<or> (width rect = 0 \<and> height rect = 0)
      \<longrightarrow> moveLayoutRect rect dx dy = rect) \<and>
   (\<not> ((dx = 0 \<and> dy = 0) \<or> (width rect = 0 \<and> height rect = 0))
      \<longrightarrow> moveLayoutRect rect dx dy =
            layoutRectLtwh (left rect + dx) (rect_top rect + dy) (width rect) (height rect)
          \<and> left (moveLayoutRect rect dx dy) = left rect + dx
          \<and> rect_top (moveLayoutRect rect dx dy) = rect_top rect + dy
          \<and> width (moveLayoutRect rect dx dy) = width rect
          \<and> height (moveLayoutRect rect dx dy) = height rect)"
  by (simp add: moveLayoutRect_def layoutRectLtwh_def)

theorem moveLayoutRect_cases_witness:
  "moveLayoutRect (layoutRectLtwh (3::int) 4 0 0) 5 7 = layoutRectLtwh 3 4 0 0 \<and>
   moveLayoutRect (layoutRectLtwh (3::int) 4 10 20) 0 0 = layoutRectLtwh 3 4 10 20 \<and>
   moveLayoutRect (layoutRectLtwh (3::int) 4 10 0) 5 7 = layoutRectLtwh 8 11 10 0"
  using moveLayoutRect_cases [of 5 7 "layoutRectLtwh (3::int) 4 0 0"]
        moveLayoutRect_cases [of 0 0 "layoutRectLtwh (3::int) 4 10 20"]
        moveLayoutRect_cases [of 5 7 "layoutRectLtwh (3::int) 4 10 0"]
  by (simp add: layoutRectLtwh_def)

section \<open>Properties of the viewport observer\<close>

subsection \<open>The observer factory\<close>

text \<open>
  C7. For every dispatch function, window and options, the primitive built by
  \<open>createViewportObserver\<close> gets the window's document as its root exactly when
  \<open>needsRootBounds\<close> is true and the window is iframed; when \<open>needsRootBounds\<close> is false
  or absent, or the window is not iframed, it gets no root; and it gets the threshold
  option as it was passed.
\<close>

theorem createViewportObserver_root_threshold:
  "(io_root (createViewportObserver f win opts) = Some (document win)
      \<longleftrightarrow> needsRootBounds opts = Some True \<and> isIframed win) \<and>
   (\<not> (needsRootBounds opts = Some True \<and> isIframed win)
      \<longrightarrow> io_root (createViewportObserver f win opts) = None) \<and>
   io_threshold (createViewportObserver f win opts) = threshold opts \<and>
   io_callback (createViewportObserver f win opts) = f \<and>
   io_win (createViewportObserver f win opts) = win"
  by (auto simp add: createViewportObserver_def)

theorem createViewportObserver_root_threshold_witness:
  "io_root (createViewportObserver IoCallback \<lparr>wid = 1, isIframed = True, document = 10\<rparr>
      \<lparr>threshold = Some (Threshold_array [0, 1/2, 1]), needsRootBounds = Some True\<rparr>) = Some 10 \<and>
   io_root (createViewportObserver IoCallback \<lparr>wid = 1, isIframed = False, document = 10\<rparr>
      \<lparr>threshold = Some (Threshold_array [0, 1/2, 1]), needsRootBounds = Some True\<rparr>) = None \<and>
   io_root (createViewportObserver IoCallback \<lparr>wid = 1, isIframed = True, document = 10\<rparr>
      no_options) = None \<and>
   io_threshold (createViewportObserver IoCallback \<lparr>wid = 1, isIframed = True, document = 10\<rparr>
      \<lparr>threshold = Some (Threshold_array [0, 1/2, 1]), needsRootBounds = Some True\<rparr>)
     = Some (Threshold_array [0, 1/2, 1])"
  using createViewportObserver_root_threshold [of IoCallback "\<lparr>wid = 1, isIframed = True, document = 10\<rparr>"
          "\<lparr>threshold = Some (Threshold_array [0, 1/2, 1]), needsRootBounds = Some True\<rparr>"]
        createViewportObserver_root_threshold [of IoCallback "\<lparr>wid = 1, isIframed = False, document = 10\<rparr>"
          "\<lparr>threshold = Some (Threshold_array [0, 1/2, 1]), needsRootBounds = Some True\<rparr>"]
        createViewportObserver_root_threshold [of IoCallback "\<lparr>wid = 1, isIframed = True, document = 10\<rparr>"
          no_options]
  by (simp add: no_options_def)

subsection \<open>What a registration and an unregistration change\<close>

lemma observe_fst: "fst (observeIntersections s e c) = (e, c)"
  by (simp add: observeIntersections_def Let_def split: option.splits prod.splits)

lemma observe_viewportCallbacks:
  "viewportCallbacks (snd (observeIntersections s e c)) =
     (viewportCallbacks s)(e \<mapsto> (case viewportCallbacks s e of Some a \<Rightarrow> a | None \<Rightarrow> fresh s))"
  by (auto simp add: observeIntersections_def Let_def split: option.splits prod.splits)

lemma observe_viewportObservers:
  "viewportObservers (snd (observeIntersections s e c)) =
     (case viewportObservers s (getWin e) of
        Some io \<Rightarrow> viewportObservers s
      | None \<Rightarrow> (viewportObservers s)(getWin e \<mapsto> createViewportObserver IoCallback (getWin e) no_options))"
  by (auto simp add: observeIntersections_def Let_def split: option.splits prod.splits)

lemma observe_calls:
  "calls (snd (observeIntersections s e c)) =
     calls s @
     (case viewportObservers s (getWin e) of
        Some io \<Rightarrow> [Observe_call io e]
      | None \<Rightarrow> [Construct (createViewportObserver IoCallback (getWin e) no_options),
                 Observe_call (createViewportObserver IoCallback (getWin e) no_options) e])"
  by (auto simp add: observeIntersections_def Let_def split: option.splits prod.splits)

lemma observe_invoked: "invoked (snd (observeIntersections s e c)) = invoked s"
  by (auto simp add: observeIntersections_def Let_def split: option.splits prod.splits)

lemma observe_callbacks_of: "callbacks_of (snd (observeIntersections s e c)) e = callbacks_of s e @ [c]"
  by (auto simp add: observeIntersections_def callbacks_of_def Let_def split: option.splits prod.splits)

lemma unobserve_absent:
  "c \<notin> set (callbacks_of s e) \<Longrightarrow> unobserveIntersections s e c = s"
  by (auto simp add: unobserveIntersections_def callbacks_of_def removeItem_def split: option.splits)

lemma unobserve_last:
  assumes "viewportCallbacks s e = Some a" and "c \<in> set (arrays s a)"
    and "remove1 c (arrays s a) = []"
  shows "unobserveIntersections s e c =
           s\<lparr>arrays := (arrays s)(a := []),
             calls := calls s @ (case viewportObservers s (getWin e) of
                                   None \<Rightarrow> [] | Some io \<Rightarrow> [Unobserve_call io e]),
             viewportCallbacks := (viewportCallbacks s)(e := None)\<rparr>"
  using assms
  by (auto simp add: unobserveIntersections_def removeItem_def Let_def split: option.splits)

lemma unobserve_more:
  assumes "viewportCallbacks s e = Some a" and "c \<in> set (arrays s a)"
    and "remove1 c (arrays s a) \<noteq> []"
  shows "unobserveIntersections s e c = s\<lparr>arrays := (arrays s)(a := remove1 c (arrays s a))\<rparr>"
  using assms
  by (auto simp add: unobserveIntersections_def removeItem_def Let_def split: option.splits)

lemma unobserve_cases:
  obtains (absent) "c \<notin> set (callbacks_of s e)" "unobserveIntersections s e c = s"
  | (more) a where "viewportCallbacks s e = Some a" "c \<in> set (arrays s a)"
      "remove1 c (arrays s a) \<noteq> []"
      "unobserveIntersections s e c = s\<lparr>arrays := (arrays s)(a := remove1 c (arrays s a))\<rparr>"
  | (last) a where "viewportCallbacks s e = Some a" "c \<in> set (arrays s a)"
      "remove1 c (arrays s a) = []"
      "unobserveIntersections s e c =
           s\<lparr>arrays := (arrays s)(a := []),
             calls := calls s @ (case viewportObservers s (getWin e) of
                                   None \<Rightarrow> [] | Some io \<Rightarrow> [Unobserve_call io e]),
             viewportCallbacks := (viewportCallbacks s)(e := None)\<rparr>"
proof (cases "c \<in> set (callbacks_of s e)")
  case False
  then show ?thesis using absent unobserve_absent by blast
next
  case True
  then obtain a where a: "viewportCallbacks s e = Some a" "c \<in> set (arrays s a)"
    by (cases "viewportCallbacks s e") (auto simp add: callbacks_of_def)
  show ?thesis
  proof (cases "remove1 c (arrays s a) = []")
    case True
    then show ?thesis using last a unobserve_last by blast
  next
    case False
    then show ?thesis using more a unobserve_more by blast
  qed
qed

text \<open>A property kept by the three ways the state changes is kept by a dispatch.\<close>

lemma perform_keeps:
  assumes obs: "\<And>s e c. P s \<Longrightarrow> P (snd (observeIntersections s e c))"
    and unobs: "\<And>s e c. P s \<Longrightarrow> P (unobserveIntersections s e c)"
    and "P s"
  shows "P (foldl perform s acts)"
  using \<open>P s\<close>
proof (induction acts arbitrary: s)
  case Nil
  then show ?case by simp
next
  case (Cons act acts)
  then show ?case by (cases act) (simp_all add: obs unobs)
qed

lemma callbacksLoop_keeps:
  assumes obs: "\<And>s e c. P s \<Longrightarrow> P (snd (observeIntersections s e c))"
    and unobs: "\<And>s e c. P s \<Longrightarrow> P (unobserveIntersections s e c)"
    and inv: "\<And>s l. P s \<Longrightarrow> P (s\<lparr>invoked := l\<rparr>)"
    and "P s" and "callbacksLoop run fuel entry a k s = Some s'"
  shows "P s'"
  using \<open>P s\<close> \<open>callbacksLoop run fuel entry a k s = Some s'\<close>
proof (induction fuel arbitrary: k s)
  case 0
  then show ?case by (simp split: if_splits)
next
  case (Suc fuel)
  show ?case
  proof (cases "k < length (arrays s a)")
    case False
    with Suc.prems show ?thesis by simp
  next
    case True
    let ?s2 = "foldl perform (s\<lparr>invoked := invoked s @ [(arrays s a ! k, entry)]\<rparr>)
                 (run (arrays s a ! k) entry)"
    have "P ?s2" by (rule perform_keeps [OF obs unobs]) (simp_all add: inv Suc.prems)
    moreover have "callbacksLoop run fuel entry a (Suc k) ?s2 = Some s'"
      using Suc.prems True by (simp add: Let_def)
    ultimately show ?thesis by (rule Suc.IH)
  qed
qed

lemma entriesLoop_keeps:
  assumes obs: "\<And>s e c. P s \<Longrightarrow> P (snd (observeIntersections s e c))"
    and unobs: "\<And>s e c. P s \<Longrightarrow> P (unobserveIntersections s e c)"
    and inv: "\<And>s l. P s \<Longrightarrow> P (s\<lparr>invoked := l\<rparr>)"
    and "P s" and "entriesLoop run fuel seen es s = Some s'"
  shows "P s'"
  using \<open>P s\<close> \<open>entriesLoop run fuel seen es s = Some s'\<close>
proof (induction es arbitrary: seen s)
  case Nil
  then show ?case by simp
next
  case (Cons entry earlier)
  show ?case
  proof (cases "target entry \<in> seen")
    case True
    with Cons show ?thesis by simp
  next
    case False
    show ?thesis
    proof (cases "viewportCallbacks s (target entry)")
      case None
      with False Cons show ?thesis by simp
    next
      case (Some a)
      with False Cons.prems obtain s1 where
        s1: "callbacksLoop run fuel entry a 0 s = Some s1"
        and rest: "entriesLoop run fuel (insert (target entry) seen) earlier s1 = Some s'"
        by (auto split: option.splits)
      have "P s1" using callbacksLoop_keeps [OF obs unobs inv Cons.prems(1) s1] .
      then show ?thesis using rest Cons.IH by blast
    qed
  qed
qed

lemma reachable_keeps:
  assumes init: "P initial"
    and obs: "\<And>s e c. P s \<Longrightarrow> P (snd (observeIntersections s e c))"
    and unobs: "\<And>s e c. P s \<Longrightarrow> P (unobserveIntersections s e c)"
    and inv: "\<And>s l. P s \<Longrightarrow> P (s\<lparr>invoked := l\<rparr>)"
    and "reachable run s"
  shows "P s"
  using \<open>reachable run s\<close>
proof (induction rule: reachable.induct)
  case loaded
  show ?case by (rule init)
next
  case (registered s element callback)
  then show ?case by (simp add: obs)
next
  case (disposed s d)
  then show ?case by (simp add: dispose_def unobs)
next
  case (dispatched s fuel entries s')
  then show ?case
    unfolding ioCallback_def using entriesLoop_keeps [OF obs unobs inv] by blast
qed

lemma watching_Nil: "watching [] io e = False"
  by (simp add: watching_def)

lemma watching_snoc:
  "watching (cs @ [c]) io e =
     (if c = Observe_call io e then True
      else if c = Unobserve_call io e then False
      else watching cs io e)"
  by (auto simp add: watching_def Let_def)

lemma watching_snoc2:
  "watching (cs @ [c, c']) io e =
     (if c' = Observe_call io e then True
      else if c' = Unobserve_call io e then False
      else if c = Observe_call io e then True
      else if c = Unobserve_call io e then False
      else watching cs io e)"
  by (auto simp add: watching_def Let_def)

lemma invariant_A_initial: "invariant_A initial"
  by (simp add: invariant_A_def initial_def watching_Nil)

lemma invariant_A_invoked: "invariant_A s \<Longrightarrow> invariant_A (s\<lparr>invoked := l\<rparr>)"
  by (simp add: invariant_A_def)

lemma observe_viewportObservers_upd:
  "viewportObservers (snd (observeIntersections s e c)) =
     (viewportObservers s)(getWin e \<mapsto> primitive_for s e)"
  by (auto simp add: observe_viewportObservers primitive_for_def split: option.splits)

lemma observe_watching:
  "watching (calls (snd (observeIntersections s e c))) io e' =
     (if io = primitive_for s e \<and> e' = e then True else watching (calls s) io e')"
  by (auto simp add: observe_calls primitive_for_def watching_snoc watching_snoc2
           split: option.splits)

lemma observe_dom:
  "dom (viewportCallbacks (snd (observeIntersections s e c))) = insert e (dom (viewportCallbacks s))"
  by (simp add: observe_viewportCallbacks)

lemma invariant_A_observe:
  assumes "invariant_A s"
  shows "invariant_A (snd (observeIntersections s e c))"
proof -
  let ?s' = "snd (observeIntersections s e c)"
  have old1: "\<exists>io. viewportObservers s (getWin x) = Some io \<and> watching (calls s) io x"
    if "x \<in> dom (viewportCallbacks s)" for x
    using assms that unfolding invariant_A_def by blast
  have old2: "viewportObservers s (getWin x) = Some io \<and> x \<in> dom (viewportCallbacks s)"
    if "watching (calls s) io x" for io x
    using assms that unfolding invariant_A_def by blast
  have new1: "\<exists>io. viewportObservers ?s' (getWin x) = Some io \<and> watching (calls ?s') io x"
    if "x \<in> dom (viewportCallbacks ?s')" for x
  proof (cases "x = e")
    case True
    then show ?thesis by (simp add: observe_viewportObservers_upd observe_watching)
  next
    case False
    with that have "x \<in> dom (viewportCallbacks s)" by (simp add: observe_dom)
    from old1 [OF this] obtain io where
      io: "viewportObservers s (getWin x) = Some io" "watching (calls s) io x" by blast
    show ?thesis
    proof (cases "getWin x = getWin e")
      case True
      with io have "primitive_for s e = io" by (simp add: primitive_for_def)
      with io True show ?thesis by (simp add: observe_viewportObservers_upd observe_watching)
    next
      case False
      with io show ?thesis by (simp add: observe_viewportObservers_upd observe_watching)
    qed
  qed
  have new2: "viewportObservers ?s' (getWin x) = Some io \<and> x \<in> dom (viewportCallbacks ?s')"
    if "watching (calls ?s') io x" for io x
  proof (cases "io = primitive_for s e \<and> x = e")
    case True
    then show ?thesis by (simp add: observe_viewportObservers_upd observe_dom)
  next
    case False
    with that have "watching (calls s) io x" by (simp add: observe_watching)
    from old2 [OF this] have
      io: "viewportObservers s (getWin x) = Some io" "x \<in> dom (viewportCallbacks s)" by simp_all
    show ?thesis
    proof (cases "getWin x = getWin e")
      case True
      with io have "primitive_for s e = io" by (simp add: primitive_for_def)
      with io True show ?thesis by (simp add: observe_viewportObservers_upd observe_dom)
    next
      case False
      with io show ?thesis by (simp add: observe_viewportObservers_upd observe_dom)
    qed
  qed
  show ?thesis unfolding invariant_A_def using new1 new2 by blast
qed

lemma invariant_A_unobserve:
  assumes "invariant_A s"
  shows "invariant_A (unobserveIntersections s e c)"
proof (cases rule: unobserve_cases [of c s e])
  case absent
  then show ?thesis using assms by simp
next
  case (more a)
  then show ?thesis using assms by (simp add: invariant_A_def)
next
  case (last a)
  from assms last(1) obtain io0 where io0: "viewportObservers s (getWin e) = Some io0"
    by (auto simp add: invariant_A_def)
  show ?thesis
    unfolding last(4) using assms io0
    by (auto simp add: invariant_A_def watching_snoc)
qed

lemma reachable_invariant_A: "reachable run s \<Longrightarrow> invariant_A s"
  by (rule reachable_keeps [where P = invariant_A])
     (simp_all add: invariant_A_initial invariant_A_observe invariant_A_unobserve invariant_A_invoked)

lemmas example_defs = Win1_def Win2_def Elem1_def Elem2_def Rec0_def Rec1_def Rec2_def

lemma io_win_create [simp]: "io_win (createViewportObserver f w opts) = w"
  by (simp add: createViewportObserver_def)

lemma constructed_for_simps [simp]:
  "constructed_for w (Construct io) = (io_win io = w)"
  "constructed_for w (Observe_call io e) = False"
  "constructed_for w (Unobserve_call io e) = False"
  by (simp_all add: constructed_for_def)

lemma invariant_B_initial: "invariant_B initial"
  by (simp add: invariant_B_def initial_def)

lemma invariant_B_invoked: "invariant_B s \<Longrightarrow> invariant_B (s\<lparr>invoked := l\<rparr>)"
  by (simp add: invariant_B_def)

lemma invariant_B_observe:
  assumes "invariant_B s"
  shows "invariant_B (snd (observeIntersections s e c))"
  unfolding invariant_B_def
proof
  fix w
  let ?s' = "snd (observeIntersections s e c)"
  from assms have old:
    "filter (constructed_for w) (calls s) =
            (case viewportObservers s w of None \<Rightarrow> [] | Some io \<Rightarrow> [Construct io])"
    "\<forall>io. viewportObservers s w = Some io \<longrightarrow>
                io = createViewportObserver IoCallback w no_options"
    unfolding invariant_B_def by blast+
  show "filter (constructed_for w) (calls ?s') =
            (case viewportObservers ?s' w of None \<Rightarrow> [] | Some io \<Rightarrow> [Construct io]) \<and>
          (\<forall>io. viewportObservers ?s' w = Some io \<longrightarrow>
                io = createViewportObserver IoCallback w no_options)"
    using old
    by (cases "viewportObservers s (getWin e)"; cases "w = getWin e")
       (auto simp add: observe_viewportObservers observe_calls)
qed

lemma invariant_B_unobserve:
  assumes "invariant_B s"
  shows "invariant_B (unobserveIntersections s e c)"
proof (cases rule: unobserve_cases [of c s e])
  case absent
  then show ?thesis using assms by simp
next
  case (more a)
  then show ?thesis using assms by (simp add: invariant_B_def)
next
  case (last a)
  show ?thesis
    unfolding last(4) using assms
    by (auto simp add: invariant_B_def split: option.splits)
qed

lemma reachable_invariant_B: "reachable run s \<Longrightarrow> invariant_B s"
  by (rule reachable_keeps [where P = invariant_B])
     (simp_all add: invariant_B_initial invariant_B_observe invariant_B_unobserve invariant_B_invoked)

subsection \<open>One primitive per window\<close>

text \<open>
  C6. In every reachable state at most one primitive has been created for a window
  \<open>w\<close>. The first registration for an element of a window that has no primitive
  creates one, stores it in the observer registry and calls \<open>observe\<close> on it; a
  registration for an element of a window that has one leaves the observer registry as
  it is and calls \<open>observe\<close> on the stored primitive; and the primitives stored for
  two different windows are different.
\<close>

theorem one_primitive_per_window:
  assumes "reachable run s"
  shows "length (filter (constructed_for w) (calls s)) \<le> 1 \<and>
         (viewportObservers s (getWin e) = None \<longrightarrow>
            viewportObservers (snd (observeIntersections s e c)) (getWin e)
              = Some (createViewportObserver IoCallback (getWin e) no_options) \<and>
            calls (snd (observeIntersections s e c))
              = calls s @ [Construct (createViewportObserver IoCallback (getWin e) no_options),
                           Observe_call (createViewportObserver IoCallback (getWin e) no_options) e]) \<and>
         (\<forall>io. viewportObservers s (getWin e) = Some io \<longrightarrow>
            viewportObservers (snd (observeIntersections s e c)) = viewportObservers s \<and>
            calls (snd (observeIntersections s e c)) = calls s @ [Observe_call io e]) \<and>
         (\<forall>io1 io2. w1 \<noteq> w2 \<and> viewportObservers s w1 = Some io1 \<and> viewportObservers s w2 = Some io2
            \<longrightarrow> io1 \<noteq> io2)"
proof -
  have B: "invariant_B s" using assms by (rule reachable_invariant_B)
  have one: "length (filter (constructed_for w) (calls s)) \<le> 1"
    using B unfolding invariant_B_def by (cases "viewportObservers s w") auto
  have first: "viewportObservers s (getWin e) = None \<longrightarrow>
            viewportObservers (snd (observeIntersections s e c)) (getWin e)
              = Some (createViewportObserver IoCallback (getWin e) no_options) \<and>
            calls (snd (observeIntersections s e c))
              = calls s @ [Construct (createViewportObserver IoCallback (getWin e) no_options),
                           Observe_call (createViewportObserver IoCallback (getWin e) no_options) e]"
    by (simp add: observe_viewportObservers observe_calls)
  have later: "\<forall>io. viewportObservers s (getWin e) = Some io \<longrightarrow>
            viewportObservers (snd (observeIntersections s e c)) = viewportObservers s \<and>
            calls (snd (observeIntersections s e c)) = calls s @ [Observe_call io e]"
    by (simp add: observe_viewportObservers observe_calls)
  have distinct: "\<forall>io1 io2. w1 \<noteq> w2 \<and> viewportObservers s w1 = Some io1 \<and> viewportObservers s w2 = Some io2
            \<longrightarrow> io1 \<noteq> io2"
  proof (intro allI impI)
    fix io1 io2
    assume h: "w1 \<noteq> w2 \<and> viewportObservers s w1 = Some io1 \<and> viewportObservers s w2 = Some io2"
    from B h have "io1 = createViewportObserver IoCallback w1 no_options"
      and "io2 = createViewportObserver IoCallback w2 no_options"
      unfolding invariant_B_def by blast+
    then have "io_win io1 = w1" "io_win io2 = w2" by simp_all
    with h show "io1 \<noteq> io2" by auto
  qed
  from one first later distinct show ?thesis by blast
qed

subsection \<open>Unregistration\<close>

text \<open>
  C3. In a reachable state, let \<open>unobserveIntersections\<close> remove a callback that is
  registered for an element \<open>e\<close>. When no callback remains, the only platform call made
  is one \<open>unobserve\<close> for \<open>e\<close>, on the primitive of \<open>e\<close>'s window, and \<open>e\<close>'s entry
  is deleted from the callback registry; when a callback remains, no platform call is
  made and \<open>e\<close> keeps its entry, with the remaining callbacks.
\<close>

theorem last_callback_unobserves:
  assumes "reachable run s" and "c \<in> set (callbacks_of s e)"
  shows "(remove1 c (callbacks_of s e) = [] \<longrightarrow>
            (\<exists>io. viewportObservers s (getWin e) = Some io \<and>
                  calls (unobserveIntersections s e c) = calls s @ [Unobserve_call io e]) \<and>
            viewportCallbacks (unobserveIntersections s e c) e = None) \<and>
         (remove1 c (callbacks_of s e) \<noteq> [] \<longrightarrow>
            calls (unobserveIntersections s e c) = calls s \<and>
            viewportCallbacks (unobserveIntersections s e c) e = viewportCallbacks s e \<and>
            callbacks_of (unobserveIntersections s e c) e = remove1 c (callbacks_of s e))"
proof -
  from assms(2) obtain a where a: "viewportCallbacks s e = Some a" "c \<in> set (arrays s a)"
    by (cases "viewportCallbacks s e") (auto simp add: callbacks_of_def)
  then have cb: "callbacks_of s e = arrays s a" by (simp add: callbacks_of_def)
  from reachable_invariant_A [OF assms(1)] a(1) obtain io where
    io: "viewportObservers s (getWin e) = Some io"
    unfolding invariant_A_def by blast
  show ?thesis
  proof (cases "remove1 c (arrays s a) = []")
    case True
    then show ?thesis using a io cb by (simp add: unobserve_last)
  next
    case False
    then show ?thesis using a cb by (simp add: unobserve_more callbacks_of_def)
  qed
qed

subsection \<open>Invariant A\<close>

text \<open>
  C4. In every state reachable by registrations, disposer calls and dispatches, an
  element is a key of the callback registry if and only if the primitive of its window
  is watching it: \<open>observe\<close> has been called for it on that primitive and \<open>unobserve\<close>
  has not been called since. No other primitive is watching it.
\<close>

theorem registry_iff_observed:
  assumes "reachable run s"
  shows "(e \<in> dom (viewportCallbacks s)) =
           (\<exists>io. viewportObservers s (getWin e) = Some io \<and> watching (calls s) io e) \<and>
         (e \<in> dom (viewportCallbacks s)) = (\<exists>io. watching (calls s) io e)"
  using reachable_invariant_A [OF assms] unfolding invariant_A_def by blast

lemma unobserve_callbacks_of:
  "callbacks_of (unobserveIntersections s e c) e = remove1 c (callbacks_of s e)"
proof (cases rule: unobserve_cases [of c s e])
  case absent
  then show ?thesis by (simp add: remove1_idem)
next
  case (more a)
  then show ?thesis by (simp add: callbacks_of_def)
next
  case (last a)
  then show ?thesis by (simp add: callbacks_of_def)
qed

lemma Elem1_Win1 [simp]: "getWin Elem1 = Win1"
  by (simp add: Elem1_def)

lemma State1_eval:
  "viewportObservers State1 = [Win1 \<mapsto> Primitive1]"
  "viewportCallbacks State1 = [Elem1 \<mapsto> 0]"
  "arrays State1 0 = [1]"
  "calls State1 = [Construct Primitive1, Observe_call Primitive1 Elem1]"
  "callbacks_of State1 Elem1 = [1]"
  "invoked State1 = []"
  by (simp_all add: State1_def Primitive1_def observe_viewportObservers observe_viewportCallbacks
        observe_calls observe_callbacks_of observe_invoked)
     (simp_all add: initial_def callbacks_of_def observeIntersections_def Let_def)

lemma State2_eval:
  "viewportObservers State2 = [Win1 \<mapsto> Primitive1]"
  "viewportCallbacks State2 = [Elem1 \<mapsto> 0]"
  "calls State2 = [Construct Primitive1, Observe_call Primitive1 Elem1, Observe_call Primitive1 Elem1]"
  "callbacks_of State2 Elem1 = [1, 2]"
  "invoked State2 = []"
  by (simp_all add: State2_def observe_viewportObservers observe_viewportCallbacks
        observe_calls observe_callbacks_of observe_invoked State1_eval)

lemma Twice_eval:
  "viewportObservers Twice = [Win1 \<mapsto> Primitive1]"
  "viewportCallbacks Twice = [Elem1 \<mapsto> 0]"
  "calls Twice = [Construct Primitive1, Observe_call Primitive1 Elem1, Observe_call Primitive1 Elem1]"
  "callbacks_of Twice Elem1 = [1, 1]"
  "invoked Twice = []"
  by (simp_all add: Twice_def observe_viewportObservers observe_viewportCallbacks
        observe_calls observe_callbacks_of observe_invoked State1_eval)

lemma reachable_State1: "reachable run State1"
  unfolding State1_def by (rule reachable.registered [OF reachable.loaded])

lemma reachable_State2: "reachable run State2"
  unfolding State2_def by (rule reachable.registered [OF reachable_State1])

theorem last_callback_unobserves_witness:
  "reachable (\<lambda>c r. []) State1 \<and> 1 \<in> set (callbacks_of State1 Elem1) \<and>
   remove1 1 (callbacks_of State1 Elem1) = [] \<and>
   calls (unobserveIntersections State1 Elem1 1) = calls State1 @ [Unobserve_call Primitive1 Elem1] \<and>
   viewportCallbacks (unobserveIntersections State1 Elem1 1) Elem1 = None \<and>
   reachable (\<lambda>c r. []) State2 \<and> 1 \<in> set (callbacks_of State2 Elem1) \<and>
   remove1 1 (callbacks_of State2 Elem1) \<noteq> [] \<and>
   calls (unobserveIntersections State2 Elem1 1) = calls State2 \<and>
   viewportCallbacks (unobserveIntersections State2 Elem1 1) Elem1 = Some 0 \<and>
   callbacks_of (unobserveIntersections State2 Elem1 1) Elem1 = [2]"
proof -
  have r1: "reachable (\<lambda>c r. []) State1" by (rule reachable_State1)
  have r2: "reachable (\<lambda>c r. []) State2" by (rule reachable_State2)
  have h1: "1 \<in> set (callbacks_of State1 Elem1)" by (simp add: State1_eval)
  have h2: "1 \<in> set (callbacks_of State2 Elem1)" by (simp add: State2_eval)
  show ?thesis
    using r1 r2 h1 h2 last_callback_unobserves [OF r1 h1] last_callback_unobserves [OF r2 h2]
    by (simp add: State1_eval State2_eval)
qed

theorem registry_iff_observed_witness:
  "reachable (\<lambda>c r. []) State1 \<and> Elem1 \<in> dom (viewportCallbacks State1) \<and>
   (\<exists>io. viewportObservers State1 (getWin Elem1) = Some io \<and> watching (calls State1) io Elem1) \<and>
   reachable (\<lambda>c r. []) (dispose (Elem1, 1) State1) \<and>
   Elem1 \<notin> dom (viewportCallbacks (dispose (Elem1, 1) State1)) \<and>
   \<not> (\<exists>io. watching (calls (dispose (Elem1, 1) State1)) io Elem1)"
proof -
  have r1: "reachable (\<lambda>c r. []) State1" by (rule reachable_State1)
  have r2: "reachable (\<lambda>c r. []) (dispose (Elem1, 1) State1)"
    by (rule reachable.disposed [OF r1])
  have d1: "Elem1 \<in> dom (viewportCallbacks State1)" by (simp add: State1_eval)
  have d2: "Elem1 \<notin> dom (viewportCallbacks (dispose (Elem1, 1) State1))"
    by (simp add: dispose_def unobserve_last [where a = 0] State1_eval)
  show ?thesis
    using r1 r2 d1 d2 registry_iff_observed [OF r1, of Elem1] registry_iff_observed [OF r2, of Elem1]
    by simp
qed

theorem one_primitive_per_window_witness:
  "reachable (\<lambda>c r. []) State1 \<and>
   length (filter (constructed_for Win1) (calls State1)) \<le> 1 \<and>
   viewportObservers State1 (getWin Elem2) = None \<and>
   viewportObservers (snd (observeIntersections State1 Elem2 3)) (getWin Elem2)
     = Some (createViewportObserver IoCallback Win2 no_options) \<and>
   viewportObservers State1 (getWin Elem1) = Some Primitive1 \<and>
   viewportObservers (snd (observeIntersections State1 Elem1 3)) = viewportObservers State1 \<and>
   calls (snd (observeIntersections State1 Elem1 3)) = calls State1 @ [Observe_call Primitive1 Elem1]"
proof -
  have r1: "reachable (\<lambda>c r. []) State1" by (rule reachable_State1)
  have n: "viewportObservers State1 (getWin Elem2) = None"
    by (simp add: State1_eval example_defs)
  have p: "viewportObservers State1 (getWin Elem1) = Some Primitive1"
    by (simp add: State1_eval)
  show ?thesis
    using r1 n p one_primitive_per_window [OF r1, of Win1 Elem2 3 Win1 Win2]
      one_primitive_per_window [OF r1, of Win1 Elem1 3 Win1 Win2]
    by (simp add: example_defs)
qed

subsection \<open>Calling a disposer again\<close>

lemma observe_then_dispose_callbacks_of:
  assumes "c \<notin> set (callbacks_of s e)"
  shows "callbacks_of (dispose (fst (observeIntersections s e c)) (snd (observeIntersections s e c))) e
           = callbacks_of s e"
  using assms
  by (simp add: dispose_def observe_fst unobserve_callbacks_of observe_callbacks_of remove1_append)

text \<open>
  The disposer keeps no record of having been called: it looks the callback up in the
  element's array each time. With callback 1 registered two times for \<open>Elem1\<close>, the
  first call of the disposer of the second registration leaves one occurrence, and the
  second call of the same disposer removes that one too, deletes the entry and calls
  \<open>unobserve\<close>.
\<close>

theorem disposer_again_counterexample:
  "fst (observeIntersections State1 Elem1 1) = (Elem1, 1) \<and>
   snd (observeIntersections State1 Elem1 1) = Twice \<and>
   callbacks_of (dispose (Elem1, 1) Twice) Elem1 = [1] \<and>
   viewportCallbacks (dispose (Elem1, 1) Twice) Elem1 = Some 0 \<and>
   viewportCallbacks (dispose (Elem1, 1) (dispose (Elem1, 1) Twice)) Elem1 = None \<and>
   calls (dispose (Elem1, 1) (dispose (Elem1, 1) Twice))
     = calls (dispose (Elem1, 1) Twice) @ [Unobserve_call Primitive1 Elem1]"
proof -
  have a: "arrays Twice 0 = [1, 1]"
    using Twice_eval(4) by (simp add: callbacks_of_def Twice_eval(2))
  have first: "dispose (Elem1, 1) Twice = Twice\<lparr>arrays := (arrays Twice)(0 := [1])\<rparr>"
    using a by (simp add: dispose_def unobserve_more [where a = 0] Twice_eval)
  have second: "dispose (Elem1, 1) (Twice\<lparr>arrays := (arrays Twice)(0 := [1])\<rparr>)
      = Twice\<lparr>arrays := (arrays Twice)(0 := []),
              calls := calls Twice @ [Unobserve_call Primitive1 Elem1],
              viewportCallbacks := (viewportCallbacks Twice)(Elem1 := None)\<rparr>"
    by (simp add: dispose_def unobserve_last [where a = 0] Twice_eval)
  have t: "snd (observeIntersections State1 Elem1 1) = Twice" by (simp only: Twice_def)
  show ?thesis
    unfolding first second using t
    by (simp add: observe_fst callbacks_of_def Twice_eval)
qed

text \<open>
  C5, amended. A disposer call is a no-op, changing neither registry and making no
  platform call, in every state in which its callback is not in its element's array.
  For a registration of a callback that was not already registered for the element,
  this is the state after the first disposer call: the second call of the disposer
  returns the state it was given.
\<close>

theorem disposer_again_noop:
  assumes "c \<notin> set (callbacks_of s e)"
  shows "dispose (e, c) s = s \<and>
         c \<notin> set (callbacks_of
                    (dispose (fst (observeIntersections s e c)) (snd (observeIntersections s e c))) e) \<and>
         dispose (fst (observeIntersections s e c))
           (dispose (fst (observeIntersections s e c)) (snd (observeIntersections s e c)))
         = dispose (fst (observeIntersections s e c)) (snd (observeIntersections s e c))"
proof -
  let ?d = "fst (observeIntersections s e c)"
  let ?s1 = "snd (observeIntersections s e c)"
  have d: "?d = (e, c)" by (rule observe_fst)
  have noop: "dispose (e, c) s = s"
    using assms by (simp add: dispose_def unobserve_absent)
  have gone: "c \<notin> set (callbacks_of (dispose ?d ?s1) e)"
    using assms by (simp add: observe_then_dispose_callbacks_of)
  have again: "dispose ?d (dispose ?d ?s1) = dispose ?d ?s1"
    using gone unfolding d by (simp add: dispose_def unobserve_absent)
  from noop gone again show ?thesis by blast
qed

theorem disposer_again_noop_witness:
  "2 \<notin> set (callbacks_of State1 Elem1) \<and>
   dispose (Elem1, 2) State1 = State1 \<and>
   dispose (fst (observeIntersections State1 Elem1 2))
     (dispose (fst (observeIntersections State1 Elem1 2)) State2)
   = dispose (fst (observeIntersections State1 Elem1 2)) State2"
proof -
  have h: "2 \<notin> set (callbacks_of State1 Elem1)" by (simp add: State1_eval)
  show ?thesis using h disposer_again_noop [OF h] by (simp add: State2_def)
qed

subsection \<open>The store of arrays\<close>

lemma callbacks_of_invoked [simp]: "callbacks_of (s\<lparr>invoked := l\<rparr>) = callbacks_of s"
  by (rule ext) (simp add: callbacks_of_def split: option.splits)

lemma observe_arrays:
  "arrays (snd (observeIntersections s e c)) =
     (case viewportCallbacks s e of
        Some a \<Rightarrow> (arrays s)(a := arrays s a @ [c])
      | None \<Rightarrow> (arrays s)(fresh s := [c]))"
  by (auto simp add: observeIntersections_def Let_def split: option.splits prod.splits)

lemma observe_fresh:
  "fresh (snd (observeIntersections s e c)) =
     (case viewportCallbacks s e of Some a \<Rightarrow> fresh s | None \<Rightarrow> Suc (fresh s))"
  by (auto simp add: observeIntersections_def Let_def split: option.splits prod.splits)

lemma well_formed_initial: "well_formed initial"
  by (simp add: well_formed_def initial_def)

lemma well_formed_invoked: "well_formed s \<Longrightarrow> well_formed (s\<lparr>invoked := l\<rparr>)"
  by (simp add: well_formed_def)

lemma well_formed_observe:
  assumes "well_formed s"
  shows "well_formed (snd (observeIntersections s e c))"
proof (cases "viewportCallbacks s e")
  case None
  have lt: "a < fresh s" if "viewportCallbacks s x = Some a" for x a
    using assms that unfolding well_formed_def by blast
  have inj: "x = y" if "viewportCallbacks s x = Some a" "viewportCallbacks s y = Some a" for x y a
    using assms that unfolding well_formed_def by blast
  show ?thesis
    unfolding well_formed_def observe_viewportCallbacks observe_fresh
    using None lt inj by (auto simp add: less_Suc_eq dest: lt)
next
  case (Some a0)
  then have same: "viewportCallbacks (snd (observeIntersections s e c)) = viewportCallbacks s"
    by (auto simp add: observe_viewportCallbacks)
  show ?thesis
    unfolding well_formed_def same observe_fresh using assms Some
    by (simp add: well_formed_def)
qed

lemma well_formed_unobserve:
  assumes "well_formed s"
  shows "well_formed (unobserveIntersections s e c)"
proof (cases rule: unobserve_cases [of c s e])
  case absent
  then show ?thesis using assms by simp
next
  case (more a)
  then show ?thesis using assms by (simp add: well_formed_def)
next
  case (last a)
  show ?thesis
    unfolding last(4) using assms
    by (auto simp add: well_formed_def split: if_splits)
qed

lemma reachable_well_formed: "reachable run s \<Longrightarrow> well_formed s"
  by (rule reachable_keeps [where P = well_formed])
     (simp_all add: well_formed_initial well_formed_observe well_formed_unobserve well_formed_invoked)

lemma observe_other:
  assumes "well_formed s" and "e' \<noteq> e"
  shows "viewportCallbacks (snd (observeIntersections s e' c)) e = viewportCallbacks s e"
    and "callbacks_of (snd (observeIntersections s e' c)) e = callbacks_of s e"
proof -
  show vc: "viewportCallbacks (snd (observeIntersections s e' c)) e = viewportCallbacks s e"
    using assms(2) by (simp add: observe_viewportCallbacks)
  show "callbacks_of (snd (observeIntersections s e' c)) e = callbacks_of s e"
  proof (cases "viewportCallbacks s e")
    case None
    then show ?thesis using vc by (simp add: callbacks_of_def)
  next
    case (Some a)
    have lt: "a < fresh s" using assms(1) Some unfolding well_formed_def by blast
    have other: "viewportCallbacks s e' \<noteq> Some a"
      using assms Some unfolding well_formed_def by blast
    show ?thesis
      using vc Some lt other
      by (auto simp add: callbacks_of_def observe_arrays split: option.splits)
  qed
qed

lemma unobserve_other:
  assumes "well_formed s" and "e' \<noteq> e"
  shows "viewportCallbacks (unobserveIntersections s e' c) e = viewportCallbacks s e"
    and "callbacks_of (unobserveIntersections s e' c) e = callbacks_of s e"
proof -
  have inj: "viewportCallbacks s e \<noteq> Some a" if "viewportCallbacks s e' = Some a" for a
    using assms that unfolding well_formed_def by blast
  show "viewportCallbacks (unobserveIntersections s e' c) e = viewportCallbacks s e"
    using assms(2) by (cases rule: unobserve_cases [of c s e']) simp_all
  show "callbacks_of (unobserveIntersections s e' c) e = callbacks_of s e"
  proof (cases rule: unobserve_cases [of c s e'])
    case absent
    then show ?thesis by simp
  next
    case (more a)
    then show ?thesis using inj [OF more(1)]
      by (auto simp add: callbacks_of_def split: option.splits)
  next
    case (last a)
    then show ?thesis using inj [OF last(1)] assms(2)
      by (auto simp add: callbacks_of_def split: option.splits)
  qed
qed

lemma unobserve_invoked: "invoked (unobserveIntersections s e c) = invoked s"
  by (cases rule: unobserve_cases [of c s e]) simp_all

lemma agree_refl: "agree T s s"
  by (simp add: agree_def)

lemma agree_trans: "agree T s s1 \<Longrightarrow> agree T s1 s2 \<Longrightarrow> agree T s s2"
  by (simp add: agree_def)

lemma agree_invoked: "agree T s (s\<lparr>invoked := l\<rparr>)"
  by (simp add: agree_def)

lemma perform_frame:
  assumes "well_formed s" and "act_element act \<notin> T"
  shows "well_formed (perform s act) \<and> agree T s (perform s act) \<and>
         invoked (perform s act) = invoked s"
proof (cases act)
  case (Observe e' c)
  with assms(2) have ne: "\<And>e. e \<in> T \<Longrightarrow> e' \<noteq> e" by auto
  show ?thesis
    unfolding Observe
    using assms(1) ne
    by (simp add: well_formed_observe agree_def observe_other observe_invoked)
next
  case (Dispose e' c)
  with assms(2) have ne: "\<And>e. e \<in> T \<Longrightarrow> e' \<noteq> e" by auto
  show ?thesis
    unfolding Dispose
    using assms(1) ne
    by (simp add: well_formed_unobserve agree_def unobserve_other unobserve_invoked)
qed

lemma perform_all_frame:
  assumes "well_formed s" and "\<forall>act \<in> set acts. act_element act \<notin> T"
  shows "well_formed (foldl perform s acts) \<and> agree T s (foldl perform s acts) \<and>
         invoked (foldl perform s acts) = invoked s"
  using assms
proof (induction acts arbitrary: s)
  case Nil
  then show ?case by (simp add: agree_refl)
next
  case (Cons act acts)
  from Cons.prems have here: "act_element act \<notin> T"
    and rest: "\<forall>act \<in> set acts. act_element act \<notin> T" by simp_all
  from perform_frame [OF Cons.prems(1) here] have
    w: "well_formed (perform s act)" and a: "agree T s (perform s act)"
    and i: "invoked (perform s act) = invoked s" by simp_all
  from Cons.IH [OF w rest] have
    "well_formed (foldl perform (perform s act) acts)"
    "agree T (perform s act) (foldl perform (perform s act) acts)"
    "invoked (foldl perform (perform s act) acts) = invoked (perform s act)" by simp_all
  with a i show ?case by (simp add: agree_trans [OF a])
qed

subsection \<open>A dispatch whose callbacks leave the elements of the batch alone\<close>

lemma for_element_deliveries:
  "for_element e (deliveries cbs seen es) =
     (if e \<in> seen then []
      else case find (\<lambda>en. target en = e) es of
             None \<Rightarrow> []
           | Some r \<Rightarrow> map (\<lambda>c. (c, r)) (cbs e))"
proof (induction es arbitrary: seen)
  case Nil
  show ?case by (simp add: for_element_def)
next
  case (Cons en es)
  have app: "for_element e (xs @ ys) = for_element e xs @ for_element e ys" for xs ys
    by (simp add: for_element_def)
  have hit: "for_element e (map (\<lambda>c. (c, en)) cs) = (if target en = e then map (\<lambda>c. (c, en)) cs else [])"
    for cs by (induction cs) (simp_all add: for_element_def)
  show ?case
  proof (cases "target en \<in> seen")
    case True
    then show ?thesis using Cons.IH [of seen] by auto
  next
    case False
    then show ?thesis using Cons.IH [of "insert (target en) seen"] by (auto simp add: app hit)
  qed
qed

lemma find_append_option:
  "find P (xs @ ys) = (case find P xs of None \<Rightarrow> find P ys | Some x \<Rightarrow> Some x)"
  by (induction xs) simp_all

lemma find_rev_latest: "find (\<lambda>en. target en = e) (rev entries) = latest entries e"
proof (induction entries rule: rev_induct)
  case Nil
  show ?case by (simp add: latest_def)
next
  case (snoc x xs)
  then show ?case
    by (auto simp add: latest_def split: list.splits)
qed

lemma latest_Some_iff: "(\<exists>r. latest entries e = Some r) = (e \<in> target ` set entries)"
proof -
  have "(\<exists>r. latest entries e = Some r) = (filter (\<lambda>entry. target entry = e) entries \<noteq> [])"
    by (simp add: latest_def split: list.splits)
  also have "\<dots> = (e \<in> target ` set entries)"
    by (auto simp add: filter_empty_conv)
  finally show ?thesis .
qed

lemma latest_target: "latest entries e = Some r \<Longrightarrow> target r = e \<and> r \<in> set entries"
proof -
  assume h: "latest entries e = Some r"
  then have ne: "filter (\<lambda>entry. target entry = e) entries \<noteq> []"
    and r: "r = last (filter (\<lambda>entry. target entry = e) entries)"
    by (auto simp add: latest_def split: list.splits)
  from ne have "last (filter (\<lambda>entry. target entry = e) entries)
                  \<in> set (filter (\<lambda>entry. target entry = e) entries)"
    by (rule last_in_set)
  with r show ?thesis by simp
qed

lemma callbacksLoop_quiet:
  assumes "well_formed s" and "e \<in> T" and "viewportCallbacks s e = Some a"
    and "\<forall>c \<in> set (drop k (arrays s a)). \<forall>act \<in> set (run c en). act_element act \<notin> T"
    and "length (arrays s a) - k \<le> fuel"
  shows "\<exists>s'. callbacksLoop run fuel en a k s = Some s' \<and> well_formed s' \<and> agree T s s' \<and>
              invoked s' = invoked s @ map (\<lambda>c. (c, en)) (drop k (arrays s a))"
  using assms
proof (induction fuel arbitrary: k s)
  case 0
  then show ?case by (simp add: agree_refl)
next
  case (Suc fuel)
  show ?case
  proof (cases "k < length (arrays s a)")
    case False
    then show ?thesis using Suc.prems(1) by (simp add: agree_refl)
  next
    case True
    let ?c = "arrays s a ! k"
    let ?s1 = "s\<lparr>invoked := invoked s @ [(?c, en)]\<rparr>"
    let ?s2 = "foldl perform ?s1 (run ?c en)"
    have split: "drop k (arrays s a) = ?c # drop (Suc k) (arrays s a)"
      using True by (simp add: Cons_nth_drop_Suc)
    have acts: "\<forall>act \<in> set (run ?c en). act_element act \<notin> T"
      using Suc.prems(4) split by simp
    have w1: "well_formed ?s1" using Suc.prems(1) by (rule well_formed_invoked)
    from perform_all_frame [OF w1 acts] have
      w2: "well_formed ?s2" and a12: "agree T ?s1 ?s2" and i2: "invoked ?s2 = invoked ?s1"
      by simp_all
    have a02: "agree T s ?s2" using agree_trans [OF agree_invoked a12] .
    have vc2: "viewportCallbacks ?s2 e = Some a"
      using a02 Suc.prems(2,3) by (simp add: agree_def)
    have "callbacks_of ?s2 e = callbacks_of s e"
      using a02 Suc.prems(2) by (simp add: agree_def)
    then have arr2: "arrays ?s2 a = arrays s a"
      using vc2 Suc.prems(3) by (simp add: callbacks_of_def)
    have rest: "\<forall>c \<in> set (drop (Suc k) (arrays ?s2 a)). \<forall>act \<in> set (run c en). act_element act \<notin> T"
      using Suc.prems(4) split by (simp add: arr2)
    have fuel: "length (arrays ?s2 a) - Suc k \<le> fuel"
      using Suc.prems(5) by (simp add: arr2)
    from Suc.IH [OF w2 Suc.prems(2) vc2 rest fuel] obtain s' where
      loop: "callbacksLoop run fuel en a (Suc k) ?s2 = Some s'"
      and w': "well_formed s'" and a2': "agree T ?s2 s'"
      and i': "invoked s' = invoked ?s2 @ map (\<lambda>c. (c, en)) (drop (Suc k) (arrays ?s2 a))"
      by blast
    have step: "callbacksLoop run (Suc fuel) en a k s = Some s'"
      using True loop by (simp add: Let_def)
    have inv: "invoked s' = invoked s @ map (\<lambda>c. (c, en)) (drop k (arrays s a))"
      unfolding i' i2 arr2 by (simp add: split)
    from step w' agree_trans [OF a02 a2'] inv show ?thesis by blast
  qed
qed

lemma deliveries_agree:
  assumes "\<forall>en \<in> set es. cbs (target en) = cbs' (target en)"
  shows "deliveries cbs seen es = deliveries cbs' seen es"
  using assms by (induction es arbitrary: seen) simp_all

lemma entriesLoop_quiet:
  assumes "well_formed s" and "target ` set es \<subseteq> T"
    and "\<forall>en \<in> set es. \<forall>c \<in> set (callbacks_of s (target en)).
           \<forall>act \<in> set (run c en). act_element act \<notin> T"
    and "\<forall>en \<in> set es. length (callbacks_of s (target en)) \<le> fuel"
  shows "\<exists>s'. entriesLoop run fuel seen es s = Some s' \<and> well_formed s' \<and> agree T s s' \<and>
              invoked s' = invoked s @ deliveries (callbacks_of s) seen es"
  using assms
proof (induction es arbitrary: seen s)
  case Nil
  then show ?case by (simp add: agree_refl)
next
  case (Cons en es)
  have tl2: "target ` set es \<subseteq> T" using Cons.prems(2) by auto
  have tl3: "\<forall>x \<in> set es. \<forall>c \<in> set (callbacks_of s (target x)).
           \<forall>act \<in> set (run c x). act_element act \<notin> T"
    using Cons.prems(3) by simp
  have tl4: "\<forall>x \<in> set es. length (callbacks_of s (target x)) \<le> fuel"
    using Cons.prems(4) by simp
  have inT: "target en \<in> T" using Cons.prems(2) by simp
  show ?case
  proof (cases "target en \<in> seen")
    case True
    then show ?thesis using Cons.IH [OF Cons.prems(1) tl2 tl3 tl4, of seen] by simp
  next
    case False
    show ?thesis
    proof (cases "viewportCallbacks s (target en)")
      case None
      then have "callbacks_of s (target en) = []" by (simp add: callbacks_of_def)
      then show ?thesis
        using False None Cons.IH [OF Cons.prems(1) tl2 tl3 tl4, of "insert (target en) seen"]
        by simp
    next
      case (Some a)
      then have cb: "callbacks_of s (target en) = arrays s a" by (simp add: callbacks_of_def)
      have acts: "\<forall>c \<in> set (drop 0 (arrays s a)). \<forall>act \<in> set (run c en). act_element act \<notin> T"
        using Cons.prems(3) cb by simp
      have fuel: "length (arrays s a) - 0 \<le> fuel" using Cons.prems(4) cb by simp
      from callbacksLoop_quiet [of s "target en" T a 0 run en fuel, OF Cons.prems(1) inT Some acts fuel]
      obtain s1 where
        loop: "callbacksLoop run fuel en a 0 s = Some s1"
        and w1: "well_formed s1" and a1: "agree T s s1"
        and i1: "invoked s1 = invoked s @ map (\<lambda>c. (c, en)) (arrays s a)"
        by auto
      have same: "callbacks_of s1 (target x) = callbacks_of s (target x)" if "x \<in> set es" for x
        using a1 tl2 that by (auto simp add: agree_def)
      have tl3': "\<forall>x \<in> set es. \<forall>c \<in> set (callbacks_of s1 (target x)).
           \<forall>act \<in> set (run c x). act_element act \<notin> T"
        using tl3 same by simp
      have tl4': "\<forall>x \<in> set es. length (callbacks_of s1 (target x)) \<le> fuel"
        using tl4 same by simp
      from Cons.IH [OF w1 tl2 tl3' tl4', of "insert (target en) seen"] obtain s' where
        rest: "entriesLoop run fuel (insert (target en) seen) es s1 = Some s'"
        and w': "well_formed s'" and a': "agree T s1 s'"
        and i': "invoked s' = invoked s1 @
                   deliveries (callbacks_of s1) (insert (target en) seen) es"
        by blast
      have d: "deliveries (callbacks_of s1) (insert (target en) seen) es
                 = deliveries (callbacks_of s) (insert (target en) seen) es"
        by (rule deliveries_agree) (simp add: same)
      have step: "entriesLoop run fuel seen (en # es) s = Some s'"
        using False Some loop rest by simp
      have inv: "invoked s' = invoked s @ deliveries (callbacks_of s) seen (en # es)"
        unfolding i' i1 d using False cb by simp
      from step w' agree_trans [OF a1 a'] inv show ?thesis by blast
    qed
  qed
qed

lemma ioCallback_quiet:
  assumes "well_formed s" and "quiet run s entries" and "enough fuel s entries"
  shows "\<exists>s'. ioCallback run fuel entries s = Some s' \<and>
              agree (target ` set entries) s s' \<and>
              (\<forall>e. for_element e (delivered s s') =
                     (case latest entries e of
                        None \<Rightarrow> []
                      | Some r \<Rightarrow> map (\<lambda>c. (c, r)) (callbacks_of s e)))"
proof -
  let ?T = "target ` set entries"
  have t: "target ` set (rev entries) \<subseteq> ?T" by simp
  have c: "\<forall>en \<in> set (rev entries). \<forall>c \<in> set (callbacks_of s (target en)).
           \<forall>act \<in> set (run c en). act_element act \<notin> ?T"
    using assms(2) by (simp add: quiet_def)
  have f: "\<forall>en \<in> set (rev entries). length (callbacks_of s (target en)) \<le> fuel"
    using assms(3) by (simp add: enough_def)
  from entriesLoop_quiet [OF assms(1) t c f, of "{}"] obtain s' where
    run: "ioCallback run fuel entries s = Some s'"
    and a: "agree ?T s s'"
    and i: "invoked s' = invoked s @ deliveries (callbacks_of s) {} (rev entries)"
    unfolding ioCallback_def by blast
  have d: "delivered s s' = deliveries (callbacks_of s) {} (rev entries)"
    by (simp add: delivered_def i)
  have "for_element e (delivered s s') =
          (case latest entries e of None \<Rightarrow> [] | Some r \<Rightarrow> map (\<lambda>c. (c, r)) (callbacks_of s e))"
    for e unfolding d by (simp add: for_element_deliveries find_rev_latest)
  with run a show ?thesis by blast
qed

subsection \<open>What a dispatch delivers\<close>

lemma count_list_filter: "P x \<Longrightarrow> count_list (filter P xs) x = count_list xs x"
  by (induction xs) auto

lemma count_list_map_pair: "count_list (map (\<lambda>c. (c, r)) cs) (c, r) = count_list cs c"
  by (induction cs) auto

lemma count_list_remove1: "count_list (remove1 c xs) c = count_list xs c - 1"
  by (induction xs) auto

lemma latest_example: "latest [Rec0, Rec1] Elem1 = Some Rec1"
  by (simp add: latest_def Rec0_def Rec1_def)

lemma quiet_none: "quiet (\<lambda>c r. []) s entries"
  by (simp add: quiet_def)

lemma Elem1_Elem2: "Elem1 \<noteq> Elem2"
  by (simp add: Elem1_def Elem2_def Win1_def Win2_def)

text \<open>
  The invocations of a dispatch are appended to the log in the order they are made.
  Whatever the callbacks do when they are invoked, every invocation that a dispatch
  makes passes the most recent record of the batch for its target: an earlier record
  for the same element is never passed to a callback.
\<close>

lemma perform_invoked: "invoked (perform s act) = invoked s"
  by (cases act) (simp_all add: observe_invoked unobserve_invoked)

lemma perform_all_invoked: "invoked (foldl perform s acts) = invoked s"
  by (induction acts arbitrary: s) (simp_all add: perform_invoked)

lemma callbacksLoop_invoked:
  assumes "callbacksLoop run fuel en a k s = Some s'"
  shows "\<exists>cs. invoked s' = invoked s @ map (\<lambda>c. (c, en)) cs"
  using assms
proof (induction fuel arbitrary: k s)
  case 0
  then have "s' = s" by (simp split: if_splits)
  then have "invoked s' = invoked s @ map (\<lambda>c. (c, en)) []" by simp
  then show ?case by blast
next
  case (Suc fuel)
  show ?case
  proof (cases "k < length (arrays s a)")
    case False
    with Suc.prems have "s' = s" by simp
    then have "invoked s' = invoked s @ map (\<lambda>c. (c, en)) []" by simp
    then show ?thesis by blast
  next
    case True
    let ?c = "arrays s a ! k"
    let ?s2 = "foldl perform (s\<lparr>invoked := invoked s @ [(?c, en)]\<rparr>) (run ?c en)"
    have "callbacksLoop run fuel en a (Suc k) ?s2 = Some s'"
      using Suc.prems True by (simp add: Let_def)
    from Suc.IH [OF this] obtain cs where
      "invoked s' = invoked ?s2 @ map (\<lambda>c. (c, en)) cs" by blast
    then have "invoked s' = invoked s @ map (\<lambda>c. (c, en)) (?c # cs)"
      by (simp add: perform_all_invoked)
    then show ?thesis by blast
  qed
qed

lemma find_other_target:
  assumes "target en \<noteq> target r"
  shows "find (\<lambda>x. target x = target r) (en # es) = find (\<lambda>x. target x = target r) es"
  using assms by simp

lemma entriesLoop_invoked:
  assumes "entriesLoop run fuel seen es s = Some s'"
  shows "\<exists>ds. invoked s' = invoked s @ ds \<and>
              (\<forall>p \<in> set ds. target (snd p) \<notin> seen \<and>
                 find (\<lambda>x. target x = target (snd p)) es = Some (snd p))"
  using assms
proof (induction es arbitrary: seen s)
  case Nil
  then have "invoked s' = invoked s @ []" by simp
  moreover have "\<forall>p \<in> set ([] :: (callback \<times> entry) list). target (snd p) \<notin> seen \<and>
                 find (\<lambda>x. target x = target (snd p)) [] = Some (snd p)" by simp
  ultimately show ?case by blast
next
  case (Cons en es)
  show ?case
  proof (cases "target en \<in> seen")
    case True
    with Cons.prems have "entriesLoop run fuel seen es s = Some s'" by simp
    from Cons.IH [OF this] obtain ds where
      ds1: "invoked s' = invoked s @ ds"
      and ds2: "\<And>p. p \<in> set ds \<Longrightarrow> target (snd p) \<notin> seen \<and>
          find (\<lambda>x. target x = target (snd p)) es = Some (snd p)" by blast
    have "target (snd p) \<notin> seen \<and>
          find (\<lambda>x. target x = target (snd p)) (en # es) = Some (snd p)"
      if "p \<in> set ds" for p
    proof -
      from ds2 [OF that] have out: "target (snd p) \<notin> seen"
        and f: "find (\<lambda>x. target x = target (snd p)) es = Some (snd p)" by simp_all
      from out True have "target en \<noteq> target (snd p)" by auto
      from find_other_target [OF this] f out show ?thesis by simp
    qed
    with ds1 show ?thesis by blast
  next
    case False
    have later: "target (snd p) \<notin> seen \<and>
          find (\<lambda>x. target x = target (snd p)) (en # es) = Some (snd p)"
      if "target (snd p) \<notin> insert (target en) seen"
        and "find (\<lambda>x. target x = target (snd p)) es = Some (snd p)" for p :: "callback \<times> entry"
    proof -
      from that(1) have out: "target (snd p) \<notin> seen" and "target en \<noteq> target (snd p)"
        by auto
      from find_other_target [OF this(2)] that(2) out show ?thesis by simp
    qed
    show ?thesis
    proof (cases "viewportCallbacks s (target en)")
      case None
      with False Cons.prems have
        "entriesLoop run fuel (insert (target en) seen) es s = Some s'" by simp
      from Cons.IH [OF this] obtain ds where
        ds1: "invoked s' = invoked s @ ds"
        and ds2: "\<And>p. p \<in> set ds \<Longrightarrow> target (snd p) \<notin> insert (target en) seen \<and>
            find (\<lambda>x. target x = target (snd p)) es = Some (snd p)" by blast
      have "target (snd p) \<notin> seen \<and>
            find (\<lambda>x. target x = target (snd p)) (en # es) = Some (snd p)"
        if "p \<in> set ds" for p
        using ds2 [OF that] later by blast
      with ds1 show ?thesis by blast
    next
      case (Some a)
      with False Cons.prems obtain s1 where
        loop: "callbacksLoop run fuel en a 0 s = Some s1"
        and rest: "entriesLoop run fuel (insert (target en) seen) es s1 = Some s'"
        by (auto split: option.splits)
      from callbacksLoop_invoked [OF loop] obtain cs where
        cs: "invoked s1 = invoked s @ map (\<lambda>c. (c, en)) cs" by blast
      from Cons.IH [OF rest] obtain ds where
        ds1: "invoked s' = invoked s1 @ ds"
        and ds2: "\<And>p. p \<in> set ds \<Longrightarrow> target (snd p) \<notin> insert (target en) seen \<and>
            find (\<lambda>x. target x = target (snd p)) es = Some (snd p)" by blast
      have all: "invoked s' = invoked s @ (map (\<lambda>c. (c, en)) cs @ ds)"
        using cs ds1 by simp
      have "target (snd p) \<notin> seen \<and>
            find (\<lambda>x. target x = target (snd p)) (en # es) = Some (snd p)"
        if "p \<in> set (map (\<lambda>c. (c, en)) cs @ ds)" for p
      proof (cases "p \<in> set ds")
        case True
        then show ?thesis using ds2 later by blast
      next
        case notin: False
        with that have "snd p = en" by auto
        then show ?thesis using False by simp
      qed
      with all show ?thesis by blast
    qed
  qed
qed

lemma only_latest_delivered:
  assumes "ioCallback run fuel entries s = Some s'"
  shows "\<forall>p \<in> set (delivered s s'). latest entries (target (snd p)) = Some (snd p)"
proof -
  from entriesLoop_invoked [OF assms [unfolded ioCallback_def]] obtain ds where
    ds: "invoked s' = invoked s @ ds"
    "\<forall>p \<in> set ds. target (snd p) \<notin> {} \<and>
        find (\<lambda>x. target x = target (snd p)) (rev entries) = Some (snd p)" by blast
  have "delivered s s' = ds" by (simp add: delivered_def ds(1))
  with ds(2) show ?thesis by (simp add: find_rev_latest)
qed

lemma Mixed_eval: "callbacks_of Mixed Elem1 = [1, 2, 2]"
  by (simp add: Mixed_def observe_callbacks_of State2_eval)

text \<open>
  A dispatch is undisturbed when no callback of a target, while it is invoked, registers
  or disposes a callback for an element that the batch names. An undisturbed dispatch
  from a reachable state, with fuel for the walks, returns; the most recent record of
  an element is passed to each callback as many times as the callback is registered for
  the element.
\<close>

lemma undisturbed_once_per_registration:
  assumes "reachable run s" and "quiet run s entries" and "enough fuel s entries"
  shows "\<exists>s'. ioCallback run fuel entries s = Some s' \<and>
           (\<forall>p \<in> set (delivered s s'). latest entries (target (snd p)) = Some (snd p)) \<and>
           (\<forall>r \<in> set entries. latest entries (target r) = Some r \<longrightarrow>
              (\<forall>c. count_list (delivered s s') (c, r) = count_list (callbacks_of s (target r)) c))"
proof -
  from ioCallback_quiet [OF reachable_well_formed [OF assms(1)] assms(2,3)] obtain s' where
    run: "ioCallback run fuel entries s = Some s'"
    and each: "\<And>e. for_element e (delivered s s') =
                 (case latest entries e of
                    None \<Rightarrow> [] | Some r \<Rightarrow> map (\<lambda>c. (c, r)) (callbacks_of s e))"
    by blast
  have only_latest: "latest entries (target (snd p)) = Some (snd p)"
    if "p \<in> set (delivered s s')" for p
  proof -
    from that have "p \<in> set (for_element (target (snd p)) (delivered s s'))"
      by (simp add: for_element_def)
    then show ?thesis
      unfolding each by (cases "latest entries (target (snd p))") auto
  qed
  have once: "count_list (delivered s s') (c, r) = count_list (callbacks_of s (target r)) c"
    if "latest entries (target r) = Some r" for r c
  proof -
    have "count_list (delivered s s') (c, r) = count_list (for_element (target r) (delivered s s')) (c, r)"
      unfolding for_element_def by (rule count_list_filter [symmetric]) simp
    also have "\<dots> = count_list (map (\<lambda>c. (c, r)) (callbacks_of s (target r))) (c, r)"
      unfolding each using that by simp
    also have "\<dots> = count_list (callbacks_of s (target r)) c" by (rule count_list_map_pair)
    finally show ?thesis .
  qed
  from run only_latest once show ?thesis by blast
qed


lemma undisturbed_once_per_registration_example:
  "reachable (\<lambda>c r. []) State2 \<and>
   quiet (\<lambda>c r. []) State2 [Rec0, Rec1] \<and> enough 2 State2 [Rec0, Rec1] \<and>
   (\<exists>s'. ioCallback (\<lambda>c r. []) 2 [Rec0, Rec1] State2 = Some s' \<and>
         count_list (delivered State2 s') (1, Rec1) = 1 \<and>
         count_list (delivered State2 s') (2, Rec1) = 1 \<and>
         (1, Rec0) \<notin> set (delivered State2 s') \<and>
         (2, Rec0) \<notin> set (delivered State2 s'))"
proof -
  have q: "quiet (\<lambda>c r. []) State2 [Rec0, Rec1]" by (rule quiet_none)
  have f: "enough 2 State2 [Rec0, Rec1]"
    by (simp add: enough_def Rec0_def Rec1_def State2_eval)
  have differ: "Rec0 \<noteq> Rec1" by (simp add: Rec0_def Rec1_def)
  from undisturbed_once_per_registration [OF reachable_State2 q f] obtain s' where
    run: "ioCallback (\<lambda>c r. []) 2 [Rec0, Rec1] State2 = Some s'"
    and only: "\<forall>p \<in> set (delivered State2 s'). latest [Rec0, Rec1] (target (snd p)) = Some (snd p)"
    and once: "\<forall>r \<in> set [Rec0, Rec1]. latest [Rec0, Rec1] (target r) = Some r \<longrightarrow>
              (\<forall>c. count_list (delivered State2 s') (c, r) = count_list (callbacks_of State2 (target r)) c)"
    by blast
  have t: "target Rec1 = Elem1" "target Rec0 = Elem1" by (simp_all add: Rec0_def Rec1_def)
  from once have "\<forall>c. count_list (delivered State2 s') (c, Rec1) = count_list (callbacks_of State2 Elem1) c"
    by (simp add: t latest_example)
  then have counts: "count_list (delivered State2 s') (1, Rec1) = 1"
    "count_list (delivered State2 s') (2, Rec1) = 1"
    by (simp_all add: State2_eval)
  have skipped: "(c, Rec0) \<notin> set (delivered State2 s')" for c
  proof
    assume "(c, Rec0) \<in> set (delivered State2 s')"
    with only have "latest [Rec0, Rec1] (target Rec0) = Some Rec0" by fastforce
    with differ show False by (simp add: t latest_example)
  qed
  from reachable_State2 q f run counts skipped show ?thesis by blast
qed

text \<open>
  An undisturbed dispatch naming an element \<open>e\<close> with a registered callback invokes the
  callbacks registered for \<open>e\<close> in registration order, each with the most recent record
  for \<open>e\<close>, and leaves the callbacks of \<open>e\<close> as they were. In the example a callback
  registers a callback for another element.
\<close>

lemma undisturbed_in_registration_order:
  assumes "reachable run s" and "quiet run s entries" and "enough fuel s entries"
    and "e \<in> target ` set entries" and "callbacks_of s e \<noteq> []"
  shows "\<exists>s' r. ioCallback run fuel entries s = Some s' \<and>
           latest entries e = Some r \<and> target r = e \<and>
           for_element e (delivered s s') = map (\<lambda>c. (c, r)) (callbacks_of s e) \<and>
           map fst (for_element e (delivered s s')) = callbacks_of s e \<and>
           callbacks_of s' e = callbacks_of s e"
proof -
  from ioCallback_quiet [OF reachable_well_formed [OF assms(1)] assms(2,3)] obtain s' where
    run: "ioCallback run fuel entries s = Some s'"
    and same: "agree (target ` set entries) s s'"
    and each: "\<And>e. for_element e (delivered s s') =
                 (case latest entries e of
                    None \<Rightarrow> [] | Some r \<Rightarrow> map (\<lambda>c. (c, r)) (callbacks_of s e))"
    by blast
  from assms(4) obtain r where r: "latest entries e = Some r"
    using latest_Some_iff [of entries e] by blast
  have tr: "target r = e" using latest_target [OF r] by simp
  have d: "for_element e (delivered s s') = map (\<lambda>c. (c, r)) (callbacks_of s e)"
    unfolding each by (simp add: r)
  have order: "map fst (for_element e (delivered s s')) = callbacks_of s e"
    unfolding d by (simp add: comp_def)
  have kept: "callbacks_of s' e = callbacks_of s e"
    using same assms(4) unfolding agree_def by blast
  from run r tr d order kept show ?thesis by blast
qed


lemma undisturbed_in_registration_order_example:
  "reachable (Elsewhere Elem2) State2 \<and>
   quiet (Elsewhere Elem2) State2 [Rec0, Rec1] \<and> enough 2 State2 [Rec0, Rec1] \<and>
   Elem1 \<in> target ` set [Rec0, Rec1] \<and> callbacks_of State2 Elem1 \<noteq> [] \<and>
   (\<exists>s'. ioCallback (Elsewhere Elem2) 2 [Rec0, Rec1] State2 = Some s' \<and>
         for_element Elem1 (delivered State2 s') = [(1, Rec1), (2, Rec1)])"
proof -
  have q: "quiet (Elsewhere Elem2) State2 [Rec0, Rec1]"
    using Elem1_Elem2 by (auto simp add: quiet_def Elsewhere_def Rec0_def Rec1_def)
  have f: "enough 2 State2 [Rec0, Rec1]"
    by (simp add: enough_def Rec0_def Rec1_def State2_eval)
  have n: "Elem1 \<in> target ` set [Rec0, Rec1]" by (simp add: Rec0_def)
  have c: "callbacks_of State2 Elem1 \<noteq> []" by (simp add: State2_eval)
  from undisturbed_in_registration_order [OF reachable_State2 q f n c] obtain s' r where
    "ioCallback (Elsewhere Elem2) 2 [Rec0, Rec1] State2 = Some s'"
    "latest [Rec0, Rec1] Elem1 = Some r"
    "for_element Elem1 (delivered State2 s') = map (\<lambda>c. (c, r)) (callbacks_of State2 Elem1)"
    by blast
  then have "ioCallback (Elsewhere Elem2) 2 [Rec0, Rec1] State2 = Some s' \<and>
         for_element Elem1 (delivered State2 s') = [(1, Rec1), (2, Rec1)]"
    by (simp add: latest_example State2_eval)
  with reachable_State2 [of "Elsewhere Elem2"] q f n c show ?thesis by blast
qed

subsection \<open>A callback that changes its element's array during the dispatch\<close>

text \<open>
  C1. The specification has the most recent record of a target delivered exactly once
  to each subscriber of the target, on every dispatch. The inner loop of \<open>ioCallback\<close> walks
  the element's array itself, not a copy, and reads its length at every turn, so a
  callback that calls back into the module changes the array under the loop. In
  \<open>State2\<close> the callbacks 1 and 2 are registered for \<open>Elem1\<close>, and the batch has two
  records for \<open>Elem1\<close>, \<open>Rec1\<close> the later one. With \<open>Reregister\<close>, callback 1, when it
  is invoked, calls its disposer (the array becomes \<open>[2]\<close>) and registers itself again
  (the array becomes \<open>[2, 1]\<close>); the loop goes on at index 1 and finds callback 1
  again. The dispatch returns; callback 1 has received \<open>Rec1\<close> two times, and callback 2,
  registered for \<open>Elem1\<close> before and after the dispatch, has not received it.
\<close>

theorem reregistering_callback_gets_record_twice:
  "callbacks_of State2 Elem1 = [1, 2] \<and>
   delivered_by Reregister 5 [Rec0, Rec1] State2 = Some [(1, Rec1), (1, Rec1)] \<and>
   callbacks_after Reregister 5 [Rec0, Rec1] State2 Elem1 = Some [2, 1]"
proof -
  have "delivered_by Reregister 5 [Rec0, Rec1] State2 = Some [(1, Rec1), (1, Rec1)]"
    by code_simp
  moreover have "callbacks_after Reregister 5 [Rec0, Rec1] State2 Elem1 = Some [2, 1]"
    by code_simp
  ultimately show ?thesis by (simp add: State2_eval)
qed

text \<open>
  C2. The specification has every callback registered for an element invoked, in
  registration order, on every dispatch naming the element; two distinct callbacks
  registered for the element are both invoked. In \<open>State2\<close> the callbacks 1 and 2 are registered for
  \<open>Elem1\<close>. With \<open>Selfdispose\<close>, callback 1 calls its disposer when it is invoked: the
  array becomes \<open>[2]\<close>, the loop goes on at index 1 and ends. The dispatch returns;
  callback 2, registered for \<open>Elem1\<close> before and after the dispatch, is not invoked.
\<close>

theorem self_disposal_skips_next_callback:
  "callbacks_of State2 Elem1 = [1, 2] \<and>
   delivered_by Selfdispose 5 [Rec1] State2 = Some [(1, Rec1)] \<and>
   callbacks_after Selfdispose 5 [Rec1] State2 Elem1 = Some [2]"
proof -
  have "delivered_by Selfdispose 5 [Rec1] State2 = Some [(1, Rec1)]" by code_simp
  moreover have "callbacks_after Selfdispose 5 [Rec1] State2 Elem1 = Some [2]" by code_simp
  ultimately show ?thesis by (simp add: State2_eval)
qed

subsection \<open>The same callback registered two times\<close>

lemma observe_entry: "viewportCallbacks (snd (observeIntersections s e c)) e \<noteq> None"
  by (simp add: observe_viewportCallbacks)

lemma dispose_one_of_several:
  assumes "c \<in> set (callbacks_of s e)" and "remove1 c (callbacks_of s e) \<noteq> []"
  shows "dispose (e, c) s = s\<lparr>arrays := (arrays s)(the (viewportCallbacks s e) := remove1 c (callbacks_of s e))\<rparr>"
proof -
  from assms(1) obtain a where a: "viewportCallbacks s e = Some a" "c \<in> set (arrays s a)"
    by (cases "viewportCallbacks s e") (auto simp add: callbacks_of_def)
  then have cb: "callbacks_of s e = arrays s a" by (simp add: callbacks_of_def)
  show ?thesis
    using a assms(2) cb by (simp add: dispose_def unobserve_more)
qed

text \<open>
  Two \<open>observeIntersections\<close> calls with the same callback for the same element store
  two entries at the end of the element's array. A call of either of the two disposers
  removes one occurrence of the callback, the first one in the array, and leaves the
  other: the callback is then registered once more than before the two registrations,
  the element keeps its entry and no platform call is made. On an undisturbed dispatch
  naming the element both entries fire, each with the most recent record for the
  element.
\<close>

lemma same_callback_twice_undisturbed:
  "callbacks_of (snd (observeIntersections (snd (observeIntersections s e c)) e c)) e
     = callbacks_of s e @ [c, c] \<and>
   (\<forall>d \<in> {fst (observeIntersections s e c),
            fst (observeIntersections (snd (observeIntersections s e c)) e c)}.
      callbacks_of (dispose d (snd (observeIntersections (snd (observeIntersections s e c)) e c))) e
        = remove1 c (callbacks_of s e @ [c, c]) \<and>
      count_list
        (callbacks_of (dispose d (snd (observeIntersections (snd (observeIntersections s e c)) e c))) e) c
        = Suc (count_list (callbacks_of s e) c) \<and>
      viewportCallbacks (dispose d (snd (observeIntersections (snd (observeIntersections s e c)) e c))) e
        \<noteq> None \<and>
      calls (dispose d (snd (observeIntersections (snd (observeIntersections s e c)) e c)))
        = calls (snd (observeIntersections (snd (observeIntersections s e c)) e c))) \<and>
   (reachable run s \<and>
    quiet run (snd (observeIntersections (snd (observeIntersections s e c)) e c)) entries \<and>
    enough fuel (snd (observeIntersections (snd (observeIntersections s e c)) e c)) entries \<and>
    e \<in> target ` set entries \<longrightarrow>
      (\<exists>s' r. ioCallback run fuel entries
                 (snd (observeIntersections (snd (observeIntersections s e c)) e c)) = Some s' \<and>
              latest entries e = Some r \<and>
              for_element e
                (delivered (snd (observeIntersections (snd (observeIntersections s e c)) e c)) s')
                = map (\<lambda>cb. (cb, r)) (callbacks_of s e @ [c, c])))"
proof -
  let ?s1 = "snd (observeIntersections s e c)"
  let ?s2 = "snd (observeIntersections ?s1 e c)"
  have stored: "callbacks_of ?s2 e = callbacks_of s e @ [c, c]"
    by (simp add: observe_callbacks_of)
  have d1: "fst (observeIntersections s e c) = (e, c)" by (rule observe_fst)
  have d2: "fst (observeIntersections ?s1 e c) = (e, c)" by (rule observe_fst)
  have mem: "c \<in> set (callbacks_of ?s2 e)" by (simp add: stored)
  have "length (remove1 c (callbacks_of ?s2 e)) = length (callbacks_of ?s2 e) - 1"
    using mem by (simp add: length_remove1)
  then have left: "remove1 c (callbacks_of ?s2 e) \<noteq> []" by (auto simp add: stored)
  have entry: "viewportCallbacks ?s2 e \<noteq> None" by (rule observe_entry)
  have disp: "dispose (e, c) ?s2 =
      ?s2\<lparr>arrays := (arrays ?s2)(the (viewportCallbacks ?s2 e) := remove1 c (callbacks_of ?s2 e))\<rparr>"
    by (rule dispose_one_of_several [OF mem left])
  have after: "callbacks_of (dispose (e, c) ?s2) e = remove1 c (callbacks_of s e @ [c, c])"
    by (simp add: dispose_def unobserve_callbacks_of stored)
  have count: "count_list (callbacks_of (dispose (e, c) ?s2) e) c = Suc (count_list (callbacks_of s e) c)"
    unfolding after by (simp add: count_list_remove1)
  have kept: "viewportCallbacks (dispose (e, c) ?s2) e \<noteq> None"
    by (subst disp) (simp add: entry)
  have silent: "calls (dispose (e, c) ?s2) = calls ?s2"
    by (subst disp) simp
  have both: "\<forall>d \<in> {fst (observeIntersections s e c), fst (observeIntersections ?s1 e c)}.
      callbacks_of (dispose d ?s2) e = remove1 c (callbacks_of s e @ [c, c]) \<and>
      count_list (callbacks_of (dispose d ?s2) e) c = Suc (count_list (callbacks_of s e) c) \<and>
      viewportCallbacks (dispose d ?s2) e \<noteq> None \<and>
      calls (dispose d ?s2) = calls ?s2"
    unfolding d1 d2 using after count kept silent by simp
  have fire: "reachable run s \<and>
      quiet run ?s2 entries \<and> enough fuel ?s2 entries \<and> e \<in> target ` set entries \<longrightarrow>
      (\<exists>s' r. ioCallback run fuel entries ?s2 = Some s' \<and> latest entries e = Some r \<and>
              for_element e (delivered ?s2 s') = map (\<lambda>cb. (cb, r)) (callbacks_of s e @ [c, c]))"
  proof
    assume h: "reachable run s \<and>
      quiet run ?s2 entries \<and> enough fuel ?s2 entries \<and> e \<in> target ` set entries"
    then obtain r where r: "latest entries e = Some r"
      using latest_Some_iff [of entries e] by blast
    from h have "reachable run ?s2"
      by (simp add: reachable.registered)
    then have "well_formed ?s2" by (rule reachable_well_formed)
    with h ioCallback_quiet [of ?s2 run entries fuel] obtain s' where
      run: "ioCallback run fuel entries ?s2 = Some s'"
      and each: "\<And>x. for_element x (delivered ?s2 s') =
                 (case latest entries x of
                    None \<Rightarrow> [] | Some r \<Rightarrow> map (\<lambda>c. (c, r)) (callbacks_of ?s2 x))"
      by blast
    have "for_element e (delivered ?s2 s') = map (\<lambda>cb. (cb, r)) (callbacks_of s e @ [c, c])"
      unfolding each by (simp add: r stored)
    with run r show "\<exists>s' r. ioCallback run fuel entries ?s2 = Some s' \<and> latest entries e = Some r \<and>
              for_element e (delivered ?s2 s') = map (\<lambda>cb. (cb, r)) (callbacks_of s e @ [c, c])"
      by blast
  qed
  from stored both fire show ?thesis by blast
qed


lemma same_callback_twice_undisturbed_example:
  "reachable (\<lambda>c r. []) initial \<and>
   quiet (\<lambda>c r. []) Twice [Rec1] \<and> enough 2 Twice [Rec1] \<and> Elem1 \<in> target ` set [Rec1] \<and>
   callbacks_of Twice Elem1 = [1, 1] \<and>
   callbacks_of (dispose (fst (observeIntersections State1 Elem1 1)) Twice) Elem1 = [1] \<and>
   calls (dispose (fst (observeIntersections State1 Elem1 1)) Twice) = calls Twice \<and>
   (\<exists>s'. ioCallback (\<lambda>c r. []) 2 [Rec1] Twice = Some s' \<and>
         for_element Elem1 (delivered Twice s') = [(1, Rec1), (1, Rec1)])"
proof -
  have q: "quiet (\<lambda>c r. []) Twice [Rec1]" by (rule quiet_none)
  have f: "enough 2 Twice [Rec1]" by (simp add: enough_def Rec1_def Twice_eval)
  have n: "Elem1 \<in> target ` set [Rec1]" by (simp add: Rec1_def)
  have l: "latest [Rec1] Elem1 = Some Rec1" by (simp add: latest_def Rec1_def)
  have t: "snd (observeIntersections State1 Elem1 1) = Twice" by (simp only: Twice_def)
  have s1: "snd (observeIntersections initial Elem1 1) = State1" by (simp only: State1_def)
  have c0: "callbacks_of initial Elem1 = []" by (simp add: callbacks_of_def initial_def)
  note inst = same_callback_twice_undisturbed [of initial Elem1 1 "\<lambda>c r. []" "[Rec1]" 2, unfolded s1 t c0]
  from inst have stored: "callbacks_of Twice Elem1 = [] @ [1, 1]" by blast
  from inst have "callbacks_of (dispose (fst (observeIntersections State1 Elem1 1)) Twice) Elem1
                   = remove1 1 ([] @ [1, 1]) \<and>
                 calls (dispose (fst (observeIntersections State1 Elem1 1)) Twice) = calls Twice"
    by blast
  then have disp: "callbacks_of (dispose (fst (observeIntersections State1 Elem1 1)) Twice) Elem1 = [1]"
    "calls (dispose (fst (observeIntersections State1 Elem1 1)) Twice) = calls Twice"
    by simp_all
  have i: "reachable (\<lambda>c r. []) initial" by (rule reachable.loaded)
  from inst i q f n obtain s' r where
    "ioCallback (\<lambda>c r. []) 2 [Rec1] Twice = Some s'" "latest [Rec1] Elem1 = Some r"
    "for_element Elem1 (delivered Twice s') = map (\<lambda>cb. (cb, r)) ([] @ [1, 1])"
    by blast
  then have "ioCallback (\<lambda>c r. []) 2 [Rec1] Twice = Some s' \<and>
         for_element Elem1 (delivered Twice s') = [(1, Rec1), (1, Rec1)]"
    by (simp add: l)
  with i q f n stored disp show ?thesis by auto
qed

text \<open>
  C8. The specification has the same callback, registered two times for an element,
  stored as two entries that both fire on dispatch. In \<open>Mixed\<close> the array of \<open>Elem1\<close> is
  \<open>[1, 2, 2]\<close>: callback 2 has been registered two times, after callback 1. With
  \<open>Selfdispose\<close>, callback 1 calls its disposer when it is invoked: the array becomes
  \<open>[2, 2]\<close>, the loop goes on at index 1 and invokes callback 2 once, for its second
  entry. The dispatch returns; both entries of callback 2 are in the array before and
  after the dispatch, and callback 2 has fired once, not twice.
\<close>

theorem one_of_two_entries_fires:
  "callbacks_of Mixed Elem1 = [1, 2, 2] \<and>
   delivered_by Selfdispose 5 [Rec1] Mixed = Some [(1, Rec1), (2, Rec1)] \<and>
   callbacks_after Selfdispose 5 [Rec1] Mixed Elem1 = Some [2, 2]"
proof -
  have "delivered_by Selfdispose 5 [Rec1] Mixed = Some [(1, Rec1), (2, Rec1)]" by code_simp
  moreover have "callbacks_after Selfdispose 5 [Rec1] Mixed Elem1 = Some [2, 2]" by code_simp
  ultimately show ?thesis by (simp add: Mixed_eval)
qed

end
